theory Spec2Isabelle
  imports Main
begin

section \<open>Data model\<close>

text \<open>
  The plugin (\<^verbatim>\<open>main.js\<close>, class \<^verbatim>\<open>NoteLinkerPlugin\<close>) keeps three pieces of state:
  its settings, the cache of note titles and the flag \<^verbatim>\<open>cacheUpToDate\<close>.
  Strings are lists of characters, each a code unit below 256; the host's files are records carrying the three
  fields the plugin reads, and \<open>isTFile\<close> stands for \<^verbatim>\<open>file instanceof TFile\<close>
  (a folder is an abstract file that is no \<^verbatim>\<open>TFile\<close>).
\<close>

record tfile =
  path :: string
  basename :: string
  extension :: string
  isTFile :: bool

record noteEntry =
  title :: string
  path :: string

record link =
  title :: string
  surroundingText :: string
  originalMatch :: string
  notePath :: string
  matchIndex :: "nat \<times> nat"

record settings =
  excludedFolders :: "string list"
  pageSize :: nat
  enableWikiLinks :: bool
  respectCase :: bool
  excludeFrontmatter :: bool

record plugin =
  settings :: settings
  noteTitlesCache :: "noteEntry list"
  cacheUpToDate :: bool

text \<open>The defaults of \<^verbatim>\<open>loadSettings\<close>.\<close>

definition defaultSettings :: settings where
  "defaultSettings =
     \<lparr>excludedFolders = [], pageSize = 10, enableWikiLinks = False,
      respectCase = False, excludeFrontmatter = True\<rparr>"

section \<open>The title cache\<close>

text \<open>\<^verbatim>\<open>String.prototype.startsWith\<close>.\<close>

definition startsWith :: "string \<Rightarrow> string \<Rightarrow> bool" where
  "startsWith s pre = (take (length pre) s = pre)"

















section \<open>Regular expressions\<close>

text \<open>
  The scanner and the rewriter build their patterns as strings and hand them to
  \<^verbatim>\<open>new RegExp\<close>; the part of ECMAScript's regular expressions that these patterns
  reach is modelled here: the pattern's parser, the backtracking matcher, \<^verbatim>\<open>exec\<close>
  and \<^verbatim>\<open>String.prototype.replace\<close>. A character is one \<^typ>\<open>char\<close>, a code
  unit below 256, so the texts and titles treated here are those written in Latin-1.
\<close>

datatype jsError = SyntaxError | TypeError | IOError | Unsupported

definition backslash :: char where
  "backslash = CHR 0x5C"

text \<open>The characters of the class \<^verbatim>\<open>[.*+?^${}()|[\]\\]\<close>.\<close>

definition syntaxChars :: "char list" where
  "syntaxChars = ''.*+?^${}()|[]'' @ [backslash]"

text \<open>\<^verbatim>\<open>escapeRegExp\<close>: \<^verbatim>\<open>string.replace(/[.*+?^${}()|[\]\\]/g, '\\$&')\<close> puts a backslash
  before every character of the class.\<close>

definition escapeRegExp :: "string \<Rightarrow> string" where
  "escapeRegExp s = concat (map (\<lambda>c. if c \<in> set syntaxChars then [backslash, c] else [c]) s)"

text \<open>\<^verbatim>\<open>.replace(/([()])/g, '\\\\?$1')\<close>: the replacement string of the source is the five
  characters backslash, backslash, \<^verbatim>\<open>?\<close>, \<^verbatim>\<open>$\<close>, \<^verbatim>\<open>1\<close>, so every parenthesis is replaced by
  two backslashes, a question mark and the parenthesis itself.\<close>

definition flexParens :: "string \<Rightarrow> string" where
  "flexParens s =
     concat (map (\<lambda>c. if c = CHR ''('' \<or> c = CHR '')''
                       then [backslash, backslash, CHR ''?'', c] else [c]) s)"

text \<open>
  The terms of a pattern: a character, the assertions \<^verbatim>\<open>\b\<close> and \<^verbatim>\<open>^\<close>, the lazy
  repetition \<^verbatim>\<open>[\s\S]+?\<close> of the frontmatter pattern, a capturing group with its number,
  the quantifier \<^verbatim>\<open>?\<close>, and the negative lookahead \<^verbatim>\<open>(?!...)\<close> and lookbehind
  \<^verbatim>\<open>(?<!...)\<close>. A sequence of terms is a list.
\<close>

datatype node =
    Chr char
  | WordB
  | Bol
  | LazyPlusAny
  | Group nat "node list"
  | Opt node
  | NotAhead "node list"
  | NotBehind "node list"

datatype frameKind = KGroup nat | KNotAhead | KNotBehind

fun closeFrame :: "frameKind \<Rightarrow> node list \<Rightarrow> node" where
  "closeFrame (KGroup n) ts = Group n ts"
| "closeFrame KNotAhead ts = NotAhead ts"
| "closeFrame KNotBehind ts = NotBehind ts"

text \<open>The quantifier \<^verbatim>\<open>?\<close> applies to the term before it; with nothing before it, or
  after an assertion that takes no quantifier, the pattern is a syntax error.\<close>

fun quantifyOpt :: "node list \<Rightarrow> jsError + node list" where
  "quantifyOpt [] = Inl SyntaxError"
| "quantifyOpt (Chr c # ts) = Inr (Opt (Chr c) # ts)"
| "quantifyOpt (Group n b # ts) = Inr (Opt (Group n b) # ts)"
| "quantifyOpt (WordB # ts) = Inl SyntaxError"
| "quantifyOpt (Bol # ts) = Inl SyntaxError"
| "quantifyOpt (NotBehind b # ts) = Inl SyntaxError"
| "quantifyOpt (t # ts) = Inl Unsupported"

text \<open>
  The parser reads the pattern from left to right. \<open>stack\<close> holds the groups that are
  open, each with the terms read before it at its level, \<open>cur\<close> the terms of the
  innermost level (latest first) and \<open>n\<close> the number of the next capturing group. An
  unmatched parenthesis and a backslash at the end are syntax errors; syntax that the
  plugin's patterns never contain is answered by \<open>Unsupported\<close>.
\<close>

function parsePattern ::
  "string \<Rightarrow> (frameKind \<times> node list) list \<Rightarrow> node list \<Rightarrow> nat \<Rightarrow> jsError + (node list \<times> nat)"
where
  "parsePattern [] stack cur n =
     (if stack = [] then Inr (rev cur, n) else Inl SyntaxError)"
| "parsePattern (c # cs) stack cur n =
     (if c = backslash then
        (case cs of
           [] \<Rightarrow> Inl SyntaxError
         | e # rest \<Rightarrow>
             if e = CHR ''b'' then parsePattern rest stack (WordB # cur) n
             else if e \<in> set syntaxChars then parsePattern rest stack (Chr e # cur) n
             else Inl Unsupported)
      else if c = CHR ''('' then
        (if take 3 cs = ''?<!'' then parsePattern (drop 3 cs) ((KNotBehind, cur) # stack) [] n
         else if take 2 cs = ''?!'' then parsePattern (drop 2 cs) ((KNotAhead, cur) # stack) [] n
         else if take 1 cs = ''?'' then Inl Unsupported
         else parsePattern cs ((KGroup n, cur) # stack) [] (Suc n))
      else if c = CHR '')'' then
        (case stack of
           [] \<Rightarrow> Inl SyntaxError
         | (k, outer) # stack' \<Rightarrow> parsePattern cs stack' (closeFrame k (rev cur) # outer) n)
      else if c = CHR ''?'' then
        (case quantifyOpt cur of
           Inl e \<Rightarrow> Inl e
         | Inr cur' \<Rightarrow> parsePattern cs stack cur' n)
      else if c \<in> set ''.*+^$|[]{}'' then Inl Unsupported
      else parsePattern cs stack (Chr c # cur) n)"
  by pat_completeness auto
termination
  by (relation "measure (\<lambda>(cs, stack, cur, n). length cs)") auto

record regexp =
  nodes :: "node list"
  groupCount :: nat
  ignoreCase :: bool
  global :: bool

text \<open>\<^verbatim>\<open>new RegExp(pattern, flags)\<close>.\<close>

definition newRegExp :: "string \<Rightarrow> string \<Rightarrow> jsError + regexp" where
  "newRegExp pattern flags =
     (case parsePattern pattern [] [] 1 of
        Inl e \<Rightarrow> Inl e
      | Inr (ts, n) \<Rightarrow>
          Inr \<lparr>nodes = ts, groupCount = n - 1,
               ignoreCase = (CHR ''i'' \<in> set flags), global = (CHR ''g'' \<in> set flags)\<rparr>)"

text \<open>
  \<^verbatim>\<open>Canonicalize\<close> of ECMAScript, for a pattern without the flag \<^verbatim>\<open>u\<close>: with
  \<^verbatim>\<open>ignoreCase\<close> a code unit is mapped by \<^verbatim>\<open>toUpperCase\<close>, and the result is taken when
  it is one code unit, unless that turns a code unit from 128 on into one below 128. A
  character of a string is a code unit below 256 here. On these \<^verbatim>\<open>toUpperCase\<close> moves the
  letters a to z, and the letters from 0xE0 to 0xFE other than the division sign 0xF7,
  down by 32; it gives the two code units of \<^verbatim>\<open>SS\<close> for 0xDF, U+039C for the micro sign
  0xB5 and U+0178 for 0xFF, and leaves every other code unit as it is. The canonical form
  is a code unit that may lie above 255, so it is a number.
\<close>

definition toUpperCase :: "int \<Rightarrow> int list" where
  "toUpperCase cu =
     (if (97 \<le> cu \<and> cu \<le> 122) \<or> (224 \<le> cu \<and> cu \<le> 254 \<and> cu \<noteq> 247) then [cu - 32]
      else if cu = 223 then [83, 83]
      else if cu = 181 then [924]
      else if cu = 255 then [376]
      else [cu])"

definition canonicalize :: "bool \<Rightarrow> char \<Rightarrow> int" where
  "canonicalize ic ch =
     (if ic
      then (case toUpperCase (of_char ch) of
              [cu] \<Rightarrow> if 128 \<le> (of_char ch :: int) \<and> cu < 128 then of_char ch else cu
            | _ \<Rightarrow> of_char ch)
      else of_char ch)"

definition isWordChar :: "char \<Rightarrow> bool" where
  "isWordChar c =
     (c \<in> set ''abcdefghijklmnopqrstuvwxyzABCDEFGHIJKLMNOPQRSTUVWXYZ0123456789_'')"

text \<open>
  The matcher. A state is the position in the text with the captures made so far (each
  the start and end of the group's match); the result lists the states in which a term
  can end, in the order in which backtracking tries them, so its head is the match that
  ECMAScript reports. A negative lookbehind fails when its body matches some stretch of
  text that ends at the position.
\<close>

type_synonym captures = "nat \<Rightarrow> (nat \<times> nat) option"

fun matchNode :: "bool \<Rightarrow> string \<Rightarrow> node \<Rightarrow> nat \<times> captures \<Rightarrow> (nat \<times> captures) list"
and matchSeq :: "bool \<Rightarrow> string \<Rightarrow> node list \<Rightarrow> nat \<times> captures \<Rightarrow> (nat \<times> captures) list"
where
  "matchNode ic s (Chr c) (p, k) =
     (if p < length s \<and> canonicalize ic (s ! p) = canonicalize ic c then [(Suc p, k)] else [])"
| "matchNode ic s WordB (p, k) =
     (if (0 < p \<and> isWordChar (s ! (p - 1))) \<noteq> (p < length s \<and> isWordChar (s ! p))
      then [(p, k)] else [])"
| "matchNode ic s Bol (p, k) = (if p = 0 then [(p, k)] else [])"
| "matchNode ic s LazyPlusAny (p, k) = map (\<lambda>q. (q, k)) [Suc p ..< Suc (length s)]"
| "matchNode ic s (Group n ts) (p, k) =
     map (\<lambda>(q, k'). (q, k'(n \<mapsto> (p, q)))) (matchSeq ic s ts (p, k))"
| "matchNode ic s (Opt t) (p, k) =
     filter (\<lambda>(q, k'). q \<noteq> p) (matchNode ic s t (p, k)) @ [(p, k)]"
| "matchNode ic s (NotAhead ts) (p, k) =
     (if matchSeq ic s ts (p, k) = [] then [(p, k)] else [])"
| "matchNode ic s (NotBehind ts) (p, k) =
     (if list_ex (\<lambda>q. p \<in> fst ` set (matchSeq ic s ts (q, k))) [0 ..< Suc p]
      then [] else [(p, k)])"
| "matchSeq ic s [] st = [st]"
| "matchSeq ic s (t # ts) st = concat (map (matchSeq ic s ts) (matchNode ic s t st))"

record matchResult =
  index :: nat
  endIndex :: nat
  groups :: captures

text \<open>The first position of the list at which the pattern matches.\<close>

fun firstMatch :: "regexp \<Rightarrow> string \<Rightarrow> nat list \<Rightarrow> matchResult option" where
  "firstMatch re s [] = None"
| "firstMatch re s (i # is) =
     (case matchSeq (ignoreCase re) s (nodes re) (i, Map.empty) of
        [] \<Rightarrow> firstMatch re s is
      | (e, k) # _ \<Rightarrow> Some \<lparr>index = i, endIndex = e, groups = k\<rparr>)"

text \<open>
  \<^verbatim>\<open>regex.exec(s)\<close> with the regular expression's \<^verbatim>\<open>lastIndex\<close> as explicit state: the
  result and the new \<^verbatim>\<open>lastIndex\<close>. A global expression searches from \<^verbatim>\<open>lastIndex\<close> and
  leaves it at the end of the match, or at 0 when nothing matches.
\<close>

definition regexExec :: "regexp \<Rightarrow> string \<Rightarrow> nat \<Rightarrow> matchResult option \<times> nat" where
  "regexExec re s lastIndex =
     (let start = (if global re then lastIndex else 0)
      in case firstMatch re s [start ..< Suc (length s)] of
           None \<Rightarrow> (None, 0)
         | Some m \<Rightarrow> (Some m, if global re then endIndex m else lastIndex))"

text \<open>\<^verbatim>\<open>String.prototype.slice\<close> on indices that are not negative.\<close>

definition slice :: "string \<Rightarrow> nat \<Rightarrow> nat \<Rightarrow> string" where
  "slice s a b = take (b - a) (drop a s)"

section \<open>The scanner\<close>

text \<open>The pattern that \<^verbatim>\<open>detectPotentialLinks\<close> builds for a title: the template literal
  of the source around the escaped title.\<close>

definition scanSource :: "string \<Rightarrow> string" where
  "scanSource noteTitle =
     ''(?<!'' @ [backslash] @ ''['' @ [backslash] @ ''[)('' @
     flexParens (escapeRegExp noteTitle) @
     '')(?!'' @ [backslash] @ ''|?'' @ [backslash] @ '']'' @ [backslash] @ ''])''"

text \<open>The object pushed for one match; \<open>originalText\<close> is \<^verbatim>\<open>match[1]\<close>.\<close>

definition potentialLink :: "noteEntry \<Rightarrow> string \<Rightarrow> matchResult \<Rightarrow> string \<Rightarrow> link" where
  "potentialLink n input m originalText =
     \<lparr>link.title = noteEntry.title n,
      surroundingText =
        slice input (index m - 20) (index m) @ originalText @
        slice input (index m + length originalText) (index m + length originalText + 20),
      originalMatch = originalText,
      notePath = noteEntry.path n,
      matchIndex = (index m, endIndex m)\<rparr>"

text \<open>
  The loop \<^verbatim>\<open>while ((match = regex.exec(content)) !== null)\<close>. It need not end, so
  it is a partial function: \<open>None\<close> is a loop that runs forever. Reading the length of
  a first group that took no part in the match is a type error.
\<close>

partial_function (option) execLoop ::
  "regexp \<Rightarrow> string \<Rightarrow> noteEntry \<Rightarrow> nat \<Rightarrow> link list \<Rightarrow> (jsError + link list) option"
where
  "execLoop regex content n lastIndex detectedLinks =
     (case regexExec regex content lastIndex of
        (None, lastIndex') \<Rightarrow> Some (Inr detectedLinks)
      | (Some m, lastIndex') \<Rightarrow>
          (case groups m 1 of
             None \<Rightarrow> Some (Inl TypeError)
           | Some (a, b) \<Rightarrow>
               execLoop regex content n lastIndex'
                 (detectedLinks @ [potentialLink n content m (slice content a b)])))"

declare execLoop.simps [code]

text \<open>The loop over the cached notes; an exception ends it.\<close>

fun scanNotes :: "noteEntry list \<Rightarrow> string \<Rightarrow> link list \<Rightarrow> (jsError + link list) option" where
  "scanNotes [] content detectedLinks = Some (Inr detectedLinks)"
| "scanNotes (n # ns) content detectedLinks =
     (case newRegExp (scanSource (noteEntry.title n)) ''gi'' of
        Inl e \<Rightarrow> Some (Inl e)
      | Inr regex \<Rightarrow>
          (case execLoop regex content n 0 detectedLinks of
             None \<Rightarrow> None
           | Some (Inl e) \<Rightarrow> Some (Inl e)
           | Some (Inr detectedLinks') \<Rightarrow> scanNotes ns content detectedLinks'))"

text \<open>\<^verbatim>\<open>detectPotentialLinks\<close>: the links of all notes, sorted by the start of the match;
  \<^verbatim>\<open>Array.prototype.sort\<close> is stable.\<close>

definition detectPotentialLinks :: "plugin \<Rightarrow> string \<Rightarrow> (jsError + link list) option" where
  "detectPotentialLinks this content =
     (case scanNotes (noteTitlesCache this) content [] of
        None \<Rightarrow> None
      | Some (Inl e) \<Rightarrow> Some (Inl e)
      | Some (Inr detectedLinks) \<Rightarrow>
          Some (Inr (sort_key (\<lambda>l. fst (matchIndex l)) detectedLinks)))"

section \<open>Frontmatter\<close>


section \<open>Replacing\<close>

text \<open>
  \<^verbatim>\<open>GetSubstitution\<close>: the replacement string is a template in which \<^verbatim>\<open>$$\<close> is a dollar
  sign, \<^verbatim>\<open>$&\<close> the matched text, \<^verbatim>\<open>$`\<close> and \<^verbatim>\<open>$'\<close> the text before and after the
  match, and \<^verbatim>\<open>$n\<close> or \<^verbatim>\<open>$nn\<close> the text of a group when the pattern has that many
  groups; any other dollar sign stands for itself.
\<close>

definition isDigit :: "char \<Rightarrow> bool" where
  "isDigit c = (c \<in> set ''0123456789'')"

definition digitValue :: "char \<Rightarrow> nat" where
  "digitValue c = of_char c - 48"

definition captureText :: "string \<Rightarrow> captures \<Rightarrow> nat \<Rightarrow> string" where
  "captureText str k i = (case k i of None \<Rightarrow> [] | Some (a, b) \<Rightarrow> slice str a b)"

fun getSubstitution ::
  "string \<Rightarrow> string \<Rightarrow> nat \<Rightarrow> captures \<Rightarrow> nat \<Rightarrow> string \<Rightarrow> string"
where
  "getSubstitution matched str position k m [] = []"
| "getSubstitution matched str position k m (c # r) =
     (if c \<noteq> CHR ''$'' then c # getSubstitution matched str position k m r
      else
        (case r of
           [] \<Rightarrow> [c]
         | d # r' \<Rightarrow>
             if d = CHR ''$'' then CHR ''$'' # getSubstitution matched str position k m r'
             else if d = CHR ''&'' then matched @ getSubstitution matched str position k m r'
             else if d = CHR 0x60 then
               take position str @ getSubstitution matched str position k m r'
             else if d = CHR 0x27 then
               drop (position + length matched) str @ getSubstitution matched str position k m r'
             else if isDigit d then
               (case r' of
                  [] \<Rightarrow>
                    (if 1 \<le> digitValue d \<and> digitValue d \<le> m
                     then captureText str k (digitValue d)
                     else [c, d])
                | d2 # r'' \<Rightarrow>
                    if isDigit d2 \<and> 10 * digitValue d + digitValue d2 \<le> m
                    then
                      (if 1 \<le> 10 * digitValue d + digitValue d2
                       then captureText str k (10 * digitValue d + digitValue d2)
                       else [c, d, d2]) @
                      getSubstitution matched str position k m r''
                    else
                      (if 1 \<le> digitValue d \<and> digitValue d \<le> m
                       then captureText str k (digitValue d)
                       else [c, d]) @
                      getSubstitution matched str position k m r')
             else c # getSubstitution matched str position k m r))"

text \<open>
  The matches that \<^verbatim>\<open>String.prototype.replace\<close> collects with a global expression:
  \<^verbatim>\<open>exec\<close> is called until it fails, and after an empty match \<^verbatim>\<open>lastIndex\<close> moves one
  character on.
\<close>

function collectMatches :: "regexp \<Rightarrow> string \<Rightarrow> nat \<Rightarrow> matchResult list" where
  "collectMatches re s lastIndex =
     (case firstMatch re s [lastIndex ..< Suc (length s)] of
        None \<Rightarrow> []
      | Some m \<Rightarrow>
          m # collectMatches re s (if endIndex m = index m then endIndex m + 1 else endIndex m))"
  by pat_completeness auto
termination
proof (relation "measure (\<lambda>(re, s, lastIndex). Suc (length s) - lastIndex)")
  show "wf (measure (\<lambda>(re, s, lastIndex). Suc (length s) - lastIndex))"
    by simp
next
  fix re :: regexp and s :: string and lastIndex :: nat and m :: matchResult
  assume found: "firstMatch re s [lastIndex ..< Suc (length s)] = Some m"
  have forwards:
    "\<forall>q k'. (q, k') \<in> set (matchNode ic s t st) \<longrightarrow> fst st \<le> q"
    "\<forall>q k'. (q, k') \<in> set (matchSeq ic s ts st) \<longrightarrow> fst st \<le> q"
    for ic t ts st
  proof (induction ic s t st and ic s ts st rule: matchNode_matchSeq.induct)
    case (10 ic s t ts st)
    show ?case
    proof (intro allI impI)
      fix q k'
      assume "(q, k') \<in> set (matchSeq ic s (t # ts) st)"
      then obtain r kr where
        mid: "(r, kr) \<in> set (matchNode ic s t st)" and
        fin: "(q, k') \<in> set (matchSeq ic s ts (r, kr))"
        by auto
      from "10.IH"(1) mid have "fst st \<le> r" by blast
      moreover from "10.IH"(2)[OF mid] fin have "r \<le> q" by fastforce
      ultimately show "fst st \<le> q" by simp
    qed
  qed (auto split: if_splits)
  have inside: "lo \<le> index m \<and> index m \<le> length s \<and> index m \<le> endIndex m"
    if "firstMatch re s ps = Some m" "\<forall>i \<in> set ps. lo \<le> i \<and> i \<le> length s" for ps lo
    using that
  proof (induction ps)
    case Nil
    then show ?case by simp
  next
    case (Cons i ps)
    show ?case
    proof (cases "matchSeq (ignoreCase re) s (nodes re) (i, Map.empty)")
      case Nil
      with Cons show ?thesis by simp
    next
      case (Cons ek rest)
      obtain e k where ek: "ek = (e, k)" by (cases ek)
      with Cons Cons.prems(1) have m: "m = \<lparr>index = i, endIndex = e, groups = k\<rparr>" by simp
      have "(e, k) \<in> set (matchSeq (ignoreCase re) s (nodes re) (i, Map.empty))"
        using Cons ek by simp
      with forwards(2)[of "ignoreCase re" "nodes re" "(i, Map.empty)"] have "i \<le> e" by fastforce
      with m Cons.prems(2) show ?thesis by simp
    qed
  qed
  have "\<forall>i \<in> set [lastIndex ..< Suc (length s)]. lastIndex \<le> i \<and> i \<le> length s"
    by auto
  from inside[OF found this]
  have "lastIndex \<le> index m" "index m \<le> length s" "index m \<le> endIndex m"
    by auto
  then show "((re, s, if endIndex m = index m then endIndex m + 1 else endIndex m),
              (re, s, lastIndex))
             \<in> measure (\<lambda>(re, s, lastIndex). Suc (length s) - lastIndex)"
    by auto
qed

declare collectMatches.simps [simp del]

text \<open>The text between the matches is kept, each match gives way to its substitution.\<close>

fun spliceMatches :: "regexp \<Rightarrow> string \<Rightarrow> string \<Rightarrow> matchResult list \<Rightarrow> nat \<Rightarrow> string" where
  "spliceMatches re s replacement [] nextSourcePosition = drop nextSourcePosition s"
| "spliceMatches re s replacement (m # ms) nextSourcePosition =
     (if nextSourcePosition \<le> index m
      then slice s nextSourcePosition (index m) @
           getSubstitution (slice s (index m) (endIndex m)) s (index m) (groups m)
             (groupCount re) replacement @
           spliceMatches re s replacement ms (endIndex m)
      else spliceMatches re s replacement ms nextSourcePosition)"

text \<open>\<^verbatim>\<open>s.replace(re, replacement)\<close> with a replacement string: every match of a global
  expression, the first match of any other.\<close>

definition stringReplace :: "regexp \<Rightarrow> string \<Rightarrow> string \<Rightarrow> string" where
  "stringReplace re s replacement =
     spliceMatches re s replacement
       (if global re then collectMatches re s 0
        else (case fst (regexExec re s 0) of None \<Rightarrow> [] | Some m \<Rightarrow> [m]))
       0"


section \<open>The rewriter\<close>

text \<open>The token that \<^verbatim>\<open>insertLinks\<close> computes for one selected link.\<close>

definition replacementOf :: "settings \<Rightarrow> link \<Rightarrow> string" where
  "replacementOf s l =
     (let title = link.title l; originalText = originalMatch l
      in if enableWikiLinks s
         then (if originalText \<noteq> title \<and> respectCase s
               then ''[['' @ title @ ''|'' @ originalText @ '']]''
               else ''[['' @ title @ '']]'')
         else ''[['' @ title @ '']]'')"

text \<open>The pattern of the replacement: the escaped original text between two \<^verbatim>\<open>\b\<close>.\<close>

definition wordSource :: "string \<Rightarrow> string" where
  "wordSource originalText =
     [backslash] @ ''b'' @ flexParens (escapeRegExp originalText) @ [backslash] @ ''b''"

text \<open>The body of the \<^verbatim>\<open>forEach\<close> of \<^verbatim>\<open>insertLinks\<close>, on the content so far.\<close>

definition insertLink :: "settings \<Rightarrow> string \<Rightarrow> link \<Rightarrow> jsError + string" where
  "insertLink s content l =
     (case newRegExp (wordSource (originalMatch l)) ''gi'' of
        Inl e \<Rightarrow> Inl e
      | Inr regex \<Rightarrow> Inr (stringReplace regex content (replacementOf s l)))"

fun insertAll :: "settings \<Rightarrow> string \<Rightarrow> link list \<Rightarrow> jsError + string" where
  "insertAll s content [] = Inr content"
| "insertAll s content (l # ls) =
     (case insertLink s content l of
        Inl e \<Rightarrow> Inl e
      | Inr content' \<Rightarrow> insertAll s content' ls)"

text \<open>
  The vault maps a path to the content stored for it. \<^verbatim>\<open>insertLinks\<close> takes the active
  file, the editor and the selected links: it reads the file's content from the vault,
  rewrites it link by link and stores the result. A read of a missing file and a
  pattern that does not compile end it with an error and nothing is stored. The editor
  (its selection) is a parameter that the body never reads.
\<close>

type_synonym vault = "string \<Rightarrow> string option"

record editor =
  selection :: string

definition insertLinks ::
  "plugin \<Rightarrow> vault \<Rightarrow> string \<Rightarrow> editor \<Rightarrow> link list \<Rightarrow> jsError + vault"
where
  "insertLinks this v activeFile ed linksToInsert =
     (case v activeFile of
        None \<Rightarrow> Inl IOError
      | Some content \<Rightarrow>
          (case insertAll (settings this) content linksToInsert of
             Inl e \<Rightarrow> Inl e
           | Inr content' \<Rightarrow> Inr (v(activeFile \<mapsto> content'))))"

section \<open>The command\<close>




section \<open>Notions used in the proofs\<close>

text \<open>
  The definitions of this section are not part of the program: they state what the
  proofs below establish about it. A node is plain when it consumes exactly the characters
  of its \<open>literal\<close>: a character, or a group of plain nodes whose number is at least \<open>lo\<close>.
\<close>

fun plainFrom :: "nat \<Rightarrow> node \<Rightarrow> bool" where
  "plainFrom lo (Chr c) = True"
| "plainFrom lo (Group n ts) = (lo \<le> n \<and> list_all (plainFrom lo) ts)"
| "plainFrom lo t = False"

fun literal :: "node \<Rightarrow> string" where
  "literal (Chr c) = [c]"
| "literal (Group n ts) = concat (map literal ts)"
| "literal t = []"

text \<open>
  \<open>agrees ic s p w\<close>: the text \<open>s\<close> holds the word \<open>w\<close> at offset \<open>p\<close>, compared the way the
  matcher compares characters: by their canonical forms.
\<close>

fun agrees :: "bool \<Rightarrow> string \<Rightarrow> nat \<Rightarrow> string \<Rightarrow> bool" where
  "agrees ic s p [] = True"
| "agrees ic s p (c # w) =
     (p < length s \<and> canonicalize ic (s ! p) = canonicalize ic c \<and> agrees ic s (Suc p) w)"



text \<open>
  \<open>titleWalk\<close> follows \<^verbatim>\<open>parsePattern\<close> over the part of a pattern that comes from a title,
  after \<^verbatim>\<open>escapeRegExp\<close> and the replacement of the parentheses: an opening parenthesis of
  the title has become a backslash, a question mark and the start of a group, a closing one
  a backslash, a question mark and the end of a group, which is a syntax error when no group
  is open.
\<close>

type_synonym parseState = "(frameKind \<times> node list) list \<times> node list \<times> nat"

fun titleStep :: "char \<Rightarrow> parseState \<Rightarrow> parseState option" where
  "titleStep c (stack, cur, n) =
     (if c = CHR ''('' then
        Some ((KGroup n, Chr CHR ''?'' # Chr backslash # cur) # stack, [], Suc n)
      else if c = CHR '')'' then
        (case stack of
           [] \<Rightarrow> None
         | (k, outer) # stack' \<Rightarrow>
             Some (stack', closeFrame k (rev (Chr CHR ''?'' # Chr backslash # cur)) # outer, n))
      else Some (stack, Chr c # cur, n))"

fun titleWalk :: "string \<Rightarrow> parseState \<Rightarrow> parseState option" where
  "titleWalk [] st = Some st"
| "titleWalk (c # t) st = (case titleStep c st of None \<Rightarrow> None | Some st' \<Rightarrow> titleWalk t st')"

text \<open>
  The two lookarounds of the scan pattern, and what they test in a text: whether the two
  characters before an offset are \<^verbatim>\<open>[[\<close>, and whether the text at an offset goes on with
  \<^verbatim>\<open>]]\<close> or \<^verbatim>\<open>|]]\<close>.
\<close>

definition lookBehind :: node where
  "lookBehind = NotBehind [Chr CHR ''['', Chr CHR ''['']"

definition lookAhead :: node where
  "lookAhead = NotAhead [Opt (Chr CHR ''|''), Chr CHR '']'', Chr CHR '']'']"

definition precededByOpen :: "string \<Rightarrow> nat \<Rightarrow> bool" where
  "precededByOpen s p = (2 \<le> p \<and> startsWith (drop (p - 2) s) ''[['')"

definition followedByClose :: "string \<Rightarrow> nat \<Rightarrow> bool" where
  "followedByClose s p = (startsWith (drop p s) '']]'' \<or> startsWith (drop p s) ''|]]'')"

text \<open>
  \<open>titleText t\<close> is the text that the scan pattern of the title \<open>t\<close> matches, up to case:
  the title with each parenthesis replaced by a backslash and a question mark.
\<close>

definition titleText :: "string \<Rightarrow> string" where
  "titleText t =
     concat (map (\<lambda>c. if c = CHR ''('' \<or> c = CHR '')'' then [backslash, CHR ''?''] else [c]) t)"

text \<open>
  The invariant of the parser while it reads the title part of the scan pattern: the
  lookbehind is at the bottom, group 1 is open or closed above it, every other open group
  has a number from 2 on, and everything else is plain. \<open>stackLit\<close> is the text read so far.
\<close>

definition bottomShape :: "node list \<Rightarrow> bool" where
  "bottomShape cur =
     (\<exists>ps ts. cur = ps @ [Group 1 ts, lookBehind] \<and>
        list_all (plainFrom 2) ps \<and> list_all (plainFrom 2) ts)"

fun stackInv :: "(frameKind \<times> node list) list \<Rightarrow> node list \<Rightarrow> bool" where
  "stackInv [] cur = bottomShape cur"
| "stackInv ((k, outer) # fs) cur =
     (list_all (plainFrom 2) cur \<and>
      ((k = KGroup 1 \<and> outer = [lookBehind] \<and> fs = []) \<or>
       ((\<exists>j. 2 \<le> j \<and> k = KGroup j) \<and> stackInv fs outer)))"

fun stackLit :: "(frameKind \<times> node list) list \<Rightarrow> node list \<Rightarrow> string" where
  "stackLit [] cur = concat (map literal (rev cur))"
| "stackLit ((k, outer) # fs) cur = stackLit fs outer @ concat (map literal (rev cur))"

text \<open>
  The length of what group 1 of the scan pattern captures. The parenthesis that the pattern
  puts after the title closes group 1 when the parentheses of the title are balanced. A
  closing parenthesis of the title with no opening one before it closes group 1 early,
  right after its own backslash and question mark: \<open>groupOneEnd t depth\<close> is the length of
  the title's text up to there, for a title read with \<open>depth\<close> groups open inside group 1.
  \<open>bottomNodes\<close> is the list of the parser that holds group 1 once it is closed.
\<close>

fun groupOneEnd :: "string \<Rightarrow> nat \<Rightarrow> nat option" where
  "groupOneEnd [] depth = None"
| "groupOneEnd (c # t) depth =
     (if c = CHR ''('' then map_option (\<lambda>g. g + 2) (groupOneEnd t (Suc depth))
      else if c = CHR '')'' then
        (case depth of
           0 \<Rightarrow> Some 2
         | Suc d \<Rightarrow> map_option (\<lambda>g. g + 2) (groupOneEnd t d))
      else map_option Suc (groupOneEnd t depth))"

definition captureLength :: "string \<Rightarrow> nat" where
  "captureLength t = (case groupOneEnd t 0 of None \<Rightarrow> length (titleText t) | Some g \<Rightarrow> g)"

definition bottomNodes :: "(frameKind \<times> node list) list \<Rightarrow> node list \<Rightarrow> node list" where
  "bottomNodes stack cur = (if stack = [] then cur else snd (last stack))"

text \<open>
  \<open>occursAt t s i\<close>: the title \<open>t\<close> can be matched in \<open>s\<close> at offset \<open>i\<close>. \<open>goodLink\<close> is what
  the scan guarantees of each link it returns for the entry \<open>n\<close> with title \<open>t\<close>: the span
  is an occurrence, and the original text is what group 1 has captured from its start on.
\<close>

definition occursAt :: "string \<Rightarrow> string \<Rightarrow> nat \<Rightarrow> bool" where
  "occursAt t s i =
     (\<not> precededByOpen s i \<and> agrees True s i (titleText t) \<and>
      \<not> followedByClose s (i + length (titleText t)))"

definition linkStart :: "link \<Rightarrow> nat" where
  "linkStart l = fst (matchIndex l)"

definition linkEnd :: "link \<Rightarrow> nat" where
  "linkEnd l = snd (matchIndex l)"

definition goodLink :: "string \<Rightarrow> noteEntry \<Rightarrow> string \<Rightarrow> link \<Rightarrow> bool" where
  "goodLink t n s l =
     (link.title l = noteEntry.title n \<and> notePath l = noteEntry.path n \<and>
      occursAt t s (linkStart l) \<and> linkEnd l = linkStart l + length (titleText t) \<and>
      linkEnd l \<le> length s \<and>
      originalMatch l = slice s (linkStart l) (linkStart l + captureLength t))"

text \<open>
  The links of one entry of the cache: one pass of the outer loop of
  \<^verbatim>\<open>detectPotentialLinks\<close>.
\<close>

definition noteLinks :: "noteEntry \<Rightarrow> string \<Rightarrow> (jsError + link list) option" where
  "noteLinks n content =
     (case newRegExp (scanSource (noteEntry.title n)) ''gi'' of
        Inl e \<Rightarrow> Some (Inl e)
      | Inr regex \<Rightarrow> execLoop regex content n 0 [])"

text \<open>
  The offsets, in the result of \<^verbatim>\<open>spliceMatches\<close>, at which the replacement has been
  written.
\<close>

fun tokenOffsets :: "string \<Rightarrow> string \<Rightarrow> matchResult list \<Rightarrow> nat \<Rightarrow> nat list" where
  "tokenOffsets s replacement [] nextSourcePosition = []"
| "tokenOffsets s replacement (m # ms) nextSourcePosition =
     (if nextSourcePosition \<le> index m
      then length (slice s nextSourcePosition (index m)) #
           map (\<lambda>off. length (slice s nextSourcePosition (index m)) + length replacement + off)
             (tokenOffsets s replacement ms (endIndex m))
      else tokenOffsets s replacement ms nextSourcePosition)"


section \<open>Example data\<close>



definition lowerCaseLink :: link where
  "lowerCaseLink =
     \<lparr>link.title = ''Project Alpha'', surroundingText = ''See project alpha notes'',
      originalMatch = ''project alpha'', notePath = ''Project Alpha.md'',
      matchIndex = (4, 17)\<rparr>"

definition indexOf :: "string list \<Rightarrow> plugin" where
  "indexOf titles =
     \<lparr>settings = defaultSettings,
      noteTitlesCache = map (\<lambda>t. \<lparr>noteEntry.title = t, noteEntry.path = t @ ''.md''\<rparr>) titles,
      cacheUpToDate = True\<rparr>"

definition bracketedText :: string where
  "bracketedText = ''Existing Title, [[Existing Title]], [[Existing Title|it]], [[x|Existing Title]]''"

definition alphaLink :: "string \<Rightarrow> string \<Rightarrow> nat \<times> nat \<Rightarrow> link" where
  "alphaLink t original span =
     \<lparr>link.title = t, surroundingText = ''Project Alpha'', originalMatch = original,
      notePath = t @ ''.md'', matchIndex = span\<rparr>"




definition oneFile :: "string \<Rightarrow> string \<Rightarrow> vault" where
  "oneFile file content = Map.empty(file \<mapsto> content)"

definition alphaVaultA :: vault where
  "alphaVaultA = oneFile ''n.md'' ''See project alpha notes''"

definition alphaVaultB :: vault where
  "alphaVaultB = oneFile ''n.md'' ''Now project alpha is stored''"

definition alphaEditor :: editor where
  "alphaEditor = \<lparr>selection = ''See project alpha notes''\<rparr>"

definition storedAfter :: "string \<Rightarrow> jsError + vault \<Rightarrow> jsError + string option" where
  "storedAfter file r = (case r of Inl e \<Rightarrow> Inl e | Inr v \<Rightarrow> Inr (v file))"

definition artLink :: link where
  "artLink =
     \<lparr>link.title = ''art'', surroundingText = ''party'', originalMatch = ''art'',
      notePath = ''art.md'', matchIndex = (1, 4)\<rparr>"

definition alphaText :: string where
  "alphaText = ''See project alpha notes, Project Alpha''"

definition alphaLinked :: string where
  "alphaLinked = ''See [[Project Alpha]] notes, [[Project Alpha]]''"

definition alphaWordRegex :: regexp where
  "alphaWordRegex =
     \<lparr>nodes = WordB # map Chr ''project alpha'' @ [WordB], groupCount = 0,
      ignoreCase = True, global = True\<rparr>"












section \<open>Properties of the title cache\<close>















section \<open>The pattern of a title\<close>

text \<open>
  The pattern that \<^verbatim>\<open>detectPotentialLinks\<close> builds for a title is parsed here once and for
  all: either the parentheses of the title are unbalanced and \<^verbatim>\<open>new RegExp\<close> throws a
  syntax error, or the pattern is the lookbehind, group 1 around the plain nodes of
  \<open>titleText\<close>, and the lookahead. Its matches at an offset are then exactly \<open>occursAt\<close>.
  Group 1 holds the whole of \<open>titleText\<close> unless a closing parenthesis of the title ends it
  early.
\<close>

lemma agrees_append:
  "agrees ic s p (u @ v) = (agrees ic s p u \<and> agrees ic s (p + length u) v)"
  by (induction u arbitrary: p) auto

lemma match_plain:
  "plainFrom lo t \<Longrightarrow>
     \<exists>k'. matchNode ic s t st =
            (if agrees ic s (fst st) (literal t) then [(fst st + length (literal t), k')] else []) \<and>
          (\<forall>j < lo. k' j = snd st j)"
  "list_all (plainFrom lo) ts \<Longrightarrow>
     \<exists>k'. matchSeq ic s ts st =
            (if agrees ic s (fst st) (concat (map literal ts))
             then [(fst st + length (concat (map literal ts)), k')] else []) \<and>
          (\<forall>j < lo. k' j = snd st j)"
proof (induction ic s t st and ic s ts st rule: matchNode_matchSeq.induct)
  case (1 ic s c p k)
  then show ?case by auto
next
  case (5 ic s n ts p k)
  then have "list_all (plainFrom lo) ts" and n: "lo \<le> n" by auto
  from "5.IH"[OF this(1)] obtain k' where
    k': "matchSeq ic s ts (p, k) =
           (if agrees ic s (fst (p, k)) (concat (map literal ts))
            then [(fst (p, k) + length (concat (map literal ts)), k')] else [])"
        "\<forall>j < lo. k' j = snd (p, k) j"
    by blast
  show ?case
    by (rule exI[of _ "k'(n \<mapsto> (p, p + length (concat (map literal ts))))"])
       (use k' n in auto)
next
  case (9 ic s st)
  show ?case by (rule exI[of _ "snd st"]) simp
next
  case (10 ic s t ts st)
  then have pt: "plainFrom lo t" and pts: "list_all (plainFrom lo) ts" by auto
  from "10.IH"(1)[OF pt] obtain k1 where
    k1: "matchNode ic s t st =
           (if agrees ic s (fst st) (literal t) then [(fst st + length (literal t), k1)] else [])"
        "\<forall>j < lo. k1 j = snd st j"
    by blast
  show ?case
  proof (cases "agrees ic s (fst st) (literal t)")
    case False
    with k1 show ?thesis by (auto simp: agrees_append)
  next
    case True
    with k1 have mem: "(fst st + length (literal t), k1) \<in> set (matchNode ic s t st)" by simp
    from "10.IH"(2)[OF mem pts] obtain k2 where
      k2: "matchSeq ic s ts (fst st + length (literal t), k1) =
             (if agrees ic s (fst (fst st + length (literal t), k1)) (concat (map literal ts))
              then [(fst (fst st + length (literal t), k1) + length (concat (map literal ts)), k2)]
              else [])"
          "\<forall>j < lo. k2 j = snd (fst st + length (literal t), k1) j"
      by blast
    show ?thesis
      by (rule exI[of _ k2]) (use True k1 k2 in \<open>auto simp: agrees_append\<close>)
  qed
qed simp_all

lemma escaped_Cons:
  "flexParens (escapeRegExp (c # t)) = flexParens (escapeRegExp [c]) @ flexParens (escapeRegExp t)"
  by (simp add: flexParens_def escapeRegExp_def)

lemma no_quest_take:
  "take 1 r \<noteq> ''?'' \<Longrightarrow> take 3 r \<noteq> ''?<!'' \<and> take 2 r \<noteq> ''?!''"
  by (cases r) auto

lemma escaped_no_quest:
  "take 1 r \<noteq> ''?'' \<Longrightarrow> take 1 (flexParens (escapeRegExp t) @ r) \<noteq> ''?''"
  by (cases t) (auto simp: flexParens_def escapeRegExp_def backslash_def syntaxChars_def)

lemma parse_char:
  assumes "take 1 r \<noteq> ''?''"
  shows "parsePattern (flexParens (escapeRegExp [c]) @ r) stack cur n =
           (case titleStep c (stack, cur, n) of
              None \<Rightarrow> Inl SyntaxError
            | Some (a, b, d) \<Rightarrow> parsePattern r a b d)"
proof -
  note nq = no_quest_take[OF assms]
  consider (lpar) "c = CHR ''(''" | (rpar) "c = CHR '')''"
    | (special) "c \<in> set syntaxChars" "c \<noteq> CHR ''(''" "c \<noteq> CHR '')''"
    | (other) "c \<notin> set syntaxChars"
    by blast
  then show ?thesis
  proof cases
    case lpar
    with assms nq show ?thesis
      by (simp add: flexParens_def escapeRegExp_def backslash_def syntaxChars_def)
  next
    case rpar
    then show ?thesis
      by (simp add: flexParens_def escapeRegExp_def backslash_def syntaxChars_def
          split: list.splits)
  next
    case special
    then show ?thesis
      by (auto simp: flexParens_def escapeRegExp_def backslash_def syntaxChars_def)
  next
    case other
    then show ?thesis
      by (auto simp: flexParens_def escapeRegExp_def backslash_def syntaxChars_def)
  qed
qed

lemma parse_title:
  "take 1 r \<noteq> ''?'' \<Longrightarrow>
   parsePattern (flexParens (escapeRegExp t) @ r) stack cur n =
     (case titleWalk t (stack, cur, n) of
        None \<Rightarrow> Inl SyntaxError
      | Some (a, b, d) \<Rightarrow> parsePattern r a b d)"
proof (induction t arbitrary: stack cur n)
  case Nil
  then show ?case by (simp add: flexParens_def escapeRegExp_def)
next
  case (Cons c t)
  have nq: "take 1 (flexParens (escapeRegExp t) @ r) \<noteq> ''?''"
    by (rule escaped_no_quest[OF Cons.prems])
  have split: "parsePattern (flexParens (escapeRegExp (c # t)) @ r) stack cur n =
               parsePattern (flexParens (escapeRegExp [c]) @ (flexParens (escapeRegExp t) @ r))
                 stack cur n"
    by (subst escaped_Cons) simp
  show ?case
  proof (cases "titleStep c (stack, cur, n)")
    case None
    with parse_char[OF nq, of c stack cur n] show ?thesis
      by (simp only: split titleWalk.simps option.case)
  next
    case (Some st')
    obtain a b d where st': "st' = (a, b, d)" by (cases st')
    with Some parse_char[OF nq, of c stack cur n] Cons.IH[OF Cons.prems, of a b d]
    show ?thesis
      by (simp only: split titleWalk.simps option.case prod.case)
  qed
qed

lemma code_unit_bracket:
  "(of_char c = (91 :: int)) = (c = CHR ''['')"
  "(of_char c = (93 :: int)) = (c = CHR '']'')"
  "(of_char c = (124 :: int)) = (c = CHR ''|'')"
  using of_char_eq_iff[of c "CHR ''[''", where ?'a = int]
    of_char_eq_iff[of c "CHR '']''", where ?'a = int]
    of_char_eq_iff[of c "CHR ''|''", where ?'a = int]
  by simp_all

lemma canonicalize_bracket [simp]:
  "(canonicalize ic c = canonicalize ic CHR ''['') = (c = CHR ''['')"
  "(canonicalize ic c = canonicalize ic CHR '']'') = (c = CHR '']'')"
  "(canonicalize ic c = canonicalize ic CHR ''|'') = (c = CHR ''|'')"
  by (auto simp: canonicalize_def toUpperCase_def code_unit_bracket split: if_splits)

lemma canonicalize_False [simp]: "(canonicalize False c = canonicalize False d) = (c = d)"
  by (simp add: canonicalize_def)

lemma startsWith_Nil [simp]: "startsWith s []"
  by (simp add: startsWith_def)

lemma startsWith_drop_Cons:
  "startsWith (drop p s) (c # w) =
     (p < length s \<and> s ! p = c \<and> startsWith (drop (Suc p) s) w)"
proof (cases "p < length s")
  case True
  then have "drop p s = s ! p # drop (Suc p) s"
    by (simp add: Cons_nth_drop_Suc)
  then show ?thesis using True by (simp add: startsWith_def)
next
  case False
  then show ?thesis by (simp add: startsWith_def)
qed

lemma match_lookBehind:
  "matchNode ic s lookBehind (p, k) = (if precededByOpen s p then [] else [(p, k)])"
proof -
  have one: "(p \<in> fst ` set (matchSeq ic s [Chr CHR ''['', Chr CHR ''['']  (q, k))) =
             (p = Suc (Suc q) \<and> Suc q < length s \<and> s ! q = CHR ''['' \<and> s ! Suc q = CHR ''['')"
    for q
    by auto
  have "list_ex (\<lambda>q. p \<in> fst ` set (matchSeq ic s [Chr CHR ''['', Chr CHR ''['']  (q, k)))
          [0 ..< Suc p] = precededByOpen s p"
  proof
    assume "list_ex (\<lambda>q. p \<in> fst ` set (matchSeq ic s [Chr CHR ''['', Chr CHR ''['']  (q, k)))
              [0 ..< Suc p]"
    then obtain q where "p = Suc (Suc q)" "Suc q < length s" "s ! q = CHR ''[''"
      "s ! Suc q = CHR ''[''"
      unfolding list_ex_iff one by auto
    then show "precededByOpen s p"
      by (simp add: precededByOpen_def startsWith_drop_Cons)
  next
    assume "precededByOpen s p"
    then have "p = Suc (Suc (p - 2)) \<and> Suc (p - 2) < length s \<and> s ! (p - 2) = CHR ''['' \<and>
               s ! Suc (p - 2) = CHR ''[''"
      by (auto simp: precededByOpen_def startsWith_drop_Cons)
    moreover have "p - 2 \<in> set [0 ..< Suc p]" by auto
    ultimately show "list_ex (\<lambda>q. p \<in> fst ` set (matchSeq ic s [Chr CHR ''['', Chr CHR ''['']  (q, k)))
              [0 ..< Suc p]"
      unfolding list_ex_iff one by blast
  qed
  then show ?thesis
    by (simp add: lookBehind_def)
qed

lemma match_lookAhead:
  "matchNode ic s lookAhead (p, k) = (if followedByClose s p then [] else [(p, k)])"
proof -
  have "(matchSeq ic s [Opt (Chr CHR ''|''), Chr CHR '']'', Chr CHR '']'']  (p, k) = []) =
          (\<not> followedByClose s p)"
    by (auto simp: followedByClose_def startsWith_drop_Cons)
  then show ?thesis
    by (simp add: lookAhead_def)
qed

lemma stackInv_Cons:
  "stackInv fs cur \<Longrightarrow> plainFrom 2 x \<Longrightarrow> stackInv fs (x # cur)"
proof (cases fs)
  case Nil
  assume "stackInv fs cur" "plainFrom 2 x"
  with Nil obtain ps ts where "cur = ps @ [Group 1 ts, lookBehind]"
    "list_all (plainFrom 2) ps" "list_all (plainFrom 2) ts"
    by (auto simp: bottomShape_def)
  with \<open>plainFrom 2 x\<close> have "x # cur = (x # ps) @ [Group 1 ts, lookBehind] \<and>
    list_all (plainFrom 2) (x # ps) \<and> list_all (plainFrom 2) ts"
    by simp
  then show ?thesis unfolding Nil stackInv.simps bottomShape_def by blast
next
  case (Cons f fs')
  assume "stackInv fs cur" "plainFrom 2 x"
  with Cons show ?thesis by (cases f) auto
qed

lemma stackLit_Cons: "stackLit fs (x # cur) = stackLit fs cur @ literal x"
  by (cases fs) auto

lemma step_inv:
  assumes "stackInv stack cur" "2 \<le> n" "titleStep c (stack, cur, n) = Some (stack', cur', n')"
  shows "stackInv stack' cur' \<and> 2 \<le> n' \<and> stackLit stack' cur' = stackLit stack cur @ titleText [c]"
proof -
  consider (lpar) "c = CHR ''(''" | (rpar) "c = CHR '')''" | (other) "c \<noteq> CHR ''(''" "c \<noteq> CHR '')''"
    by blast
  then show ?thesis
  proof cases
    case lpar
    with assms have s': "stack' = (KGroup n, Chr CHR ''?'' # Chr backslash # cur) # stack"
      "cur' = []" "n' = Suc n"
      by auto
    have "stackInv stack (Chr CHR ''?'' # Chr backslash # cur)"
      by (intro stackInv_Cons assms(1)) simp_all
    with assms(2) s' lpar show ?thesis
      by (auto simp: stackLit_Cons titleText_def)
  next
    case rpar
    with assms obtain k outer where
      st: "stack = (k, outer) # stack'" and
      c': "cur' = closeFrame k (rev (Chr CHR ''?'' # Chr backslash # cur)) # outer" and
      n': "n' = n"
      by (auto split: list.splits)
    from assms(1) st have pc: "list_all (plainFrom 2) cur" by simp
    from assms(1) st consider
      (first) "k = KGroup 1" "outer = [lookBehind]" "stack' = []"
      | (later) j where "2 \<le> j" "k = KGroup j" "stackInv stack' outer"
      by auto
    then show ?thesis
    proof cases
      case first
      have "cur' = [] @ [Group 1 (rev cur @ [Chr backslash, Chr CHR ''?'']), lookBehind]"
        using c' first by simp
      moreover have "list_all (plainFrom 2) (rev cur @ [Chr backslash, Chr CHR ''?''])"
        using pc by simp
      moreover have "list_all (plainFrom 2) ([] :: node list)"
        by simp
      ultimately have "bottomShape cur'"
        unfolding bottomShape_def by blast
      with first st n' assms(2) c' rpar show ?thesis
        by (simp add: titleText_def lookBehind_def)
    next
      case later
      have "plainFrom 2 (Group j (rev cur @ [Chr backslash, Chr CHR ''?'']))"
        using pc later(1) by simp
      with later(3) have "stackInv stack' (Group j (rev cur @ [Chr backslash, Chr CHR ''?'']) # outer)"
        by (rule stackInv_Cons)
      with later st n' assms(2) c' rpar show ?thesis
        by (simp add: titleText_def stackLit_Cons)
    qed
  next
    case other
    with assms have s': "stack' = stack" "cur' = Chr c # cur" "n' = n"
      by auto
    have "stackInv stack (Chr c # cur)"
      by (intro stackInv_Cons assms(1)) simp
    with assms(2) s' other show ?thesis
      by (simp add: stackLit_Cons titleText_def)
  qed
qed

lemma titleText_Cons: "titleText (c # t) = titleText [c] @ titleText t"
  by (simp add: titleText_def)

lemma walk_inv:
  "stackInv stack cur \<Longrightarrow> 2 \<le> n \<Longrightarrow> titleWalk t (stack, cur, n) = Some (stack', cur', n') \<Longrightarrow>
   stackInv stack' cur' \<and> 2 \<le> n' \<and> stackLit stack' cur' = stackLit stack cur @ titleText t"
proof (induction t arbitrary: stack cur n)
  case Nil
  then show ?case by (simp add: titleText_def)
next
  case (Cons c t)
  from Cons.prems(3) obtain a b d where
    step: "titleStep c (stack, cur, n) = Some (a, b, d)" and
    rest: "titleWalk t (a, b, d) = Some (stack', cur', n')"
    by (auto simp del: titleStep.simps split: option.splits)
  from step_inv[OF Cons.prems(1,2) step]
  have inv: "stackInv a b" "2 \<le> d" "stackLit a b = stackLit stack cur @ titleText [c]"
    by auto
  from Cons.IH[OF inv(1,2) rest] inv(3) show ?case
    by (simp add: titleText_Cons[of c t])
qed

lemma closed_step:
  assumes "bottomNodes stack cur = ps @ [Group 1 ts, lookBehind]"
    and "titleStep c (stack, cur, n) = Some (stack', cur', n')"
  shows "\<exists>ps'. bottomNodes stack' cur' = ps' @ [Group 1 ts, lookBehind]"
proof -
  consider (lpar) "c = CHR ''(''" | (rpar) "c = CHR '')''" | (other) "c \<noteq> CHR ''(''" "c \<noteq> CHR '')''"
    by blast
  then show ?thesis
  proof cases
    case lpar
    with assms(2) have s': "stack' = (KGroup n, Chr CHR ''?'' # Chr backslash # cur) # stack"
      by auto
    show ?thesis
    proof (cases "stack = []")
      case True
      with assms(1) s'
      have "bottomNodes stack' cur' = (Chr CHR ''?'' # Chr backslash # ps) @ [Group 1 ts, lookBehind]"
        by (simp add: bottomNodes_def)
      then show ?thesis ..
    next
      case False
      with assms(1) s' have "bottomNodes stack' cur' = ps @ [Group 1 ts, lookBehind]"
        by (simp add: bottomNodes_def)
      then show ?thesis ..
    qed
  next
    case rpar
    with assms(2) obtain k outer where
      st: "stack = (k, outer) # stack'" and
      c': "cur' = closeFrame k (rev (Chr CHR ''?'' # Chr backslash # cur)) # outer"
      by (auto split: list.splits)
    show ?thesis
    proof (cases "stack' = []")
      case True
      with assms(1) st c'
      have "bottomNodes stack' cur' =
              (closeFrame k (rev (Chr CHR ''?'' # Chr backslash # cur)) # ps) @
              [Group 1 ts, lookBehind]"
        by (simp add: bottomNodes_def)
      then show ?thesis ..
    next
      case False
      with assms(1) st have "bottomNodes stack' cur' = ps @ [Group 1 ts, lookBehind]"
        by (simp add: bottomNodes_def)
      then show ?thesis ..
    qed
  next
    case other
    with assms(2) have s': "stack' = stack" "cur' = Chr c # cur"
      by auto
    show ?thesis
    proof (cases "stack = []")
      case True
      with assms(1) s' have "bottomNodes stack' cur' = (Chr c # ps) @ [Group 1 ts, lookBehind]"
        by (simp add: bottomNodes_def)
      then show ?thesis ..
    next
      case False
      with assms(1) s' have "bottomNodes stack' cur' = ps @ [Group 1 ts, lookBehind]"
        by (simp add: bottomNodes_def)
      then show ?thesis ..
    qed
  qed
qed

lemma closed_walk:
  "bottomNodes stack cur = ps @ [Group 1 ts, lookBehind] \<Longrightarrow>
   titleWalk t (stack, cur, n) = Some (stack', cur', n') \<Longrightarrow>
   \<exists>ps'. bottomNodes stack' cur' = ps' @ [Group 1 ts, lookBehind]"
proof (induction t arbitrary: stack cur n ps)
  case Nil
  then show ?case by auto
next
  case (Cons c t)
  from Cons.prems(2) obtain a b d where
    step: "titleStep c (stack, cur, n) = Some (a, b, d)" and
    rest: "titleWalk t (a, b, d) = Some (stack', cur', n')"
    by (auto simp del: titleStep.simps split: option.splits)
  from closed_step[OF Cons.prems(1) step] obtain ps' where
    "bottomNodes a b = ps' @ [Group 1 ts, lookBehind]" ..
  from Cons.IH[OF this rest] show ?case .
qed

lemma open_walk:
  "stackInv (fs @ [(KGroup 1, [lookBehind])]) cur \<Longrightarrow> 2 \<le> n \<Longrightarrow>
   titleWalk t (fs @ [(KGroup 1, [lookBehind])], cur, n) = Some (stack', cur', n') \<Longrightarrow>
   (case groupOneEnd t (length fs) of
      None \<Rightarrow> \<exists>fs'. stack' = fs' @ [(KGroup 1, [lookBehind])]
    | Some g \<Rightarrow>
        \<exists>ps ts. bottomNodes stack' cur' = ps @ [Group 1 ts, lookBehind] \<and>
          length (concat (map literal ts)) =
            length (stackLit (fs @ [(KGroup 1, [lookBehind])]) cur) + g)"
proof (induction t arbitrary: fs cur n)
  case Nil
  then show ?case by auto
next
  case (Cons c t)
  let ?stack = "fs @ [(KGroup 1, [lookBehind])]"
  from Cons.prems(3) obtain a b d where
    step: "titleStep c (?stack, cur, n) = Some (a, b, d)" and
    rest: "titleWalk t (a, b, d) = Some (stack', cur', n')"
    by (auto simp del: titleStep.simps split: option.splits)
  from step_inv[OF Cons.prems(1,2) step]
  have inv: "stackInv a b" "2 \<le> d" and lit: "stackLit a b = stackLit ?stack cur @ titleText [c]"
    by auto
  consider (lpar) "c = CHR ''(''" | (deep) f fs' where "c = CHR '')''" "fs = f # fs'"
    | (first) "c = CHR '')''" "fs = []" | (other) "c \<noteq> CHR ''(''" "c \<noteq> CHR '')''"
    by (cases fs) auto
  then show ?case
  proof cases
    case lpar
    let ?fs = "(KGroup n, Chr CHR ''?'' # Chr backslash # cur) # fs"
    from lpar step have a: "a = ?fs @ [(KGroup 1, [lookBehind])]"
      by auto
    from lit lpar have len: "length (stackLit a b) = length (stackLit ?stack cur) + 2"
      by (simp add: titleText_def)
    from inv(1) rest
    have "stackInv (?fs @ [(KGroup 1, [lookBehind])]) b"
      "titleWalk t (?fs @ [(KGroup 1, [lookBehind])], b, d) = Some (stack', cur', n')"
      unfolding a by simp_all
    from Cons.IH[OF this(1) inv(2) this(2)] len lpar show ?thesis
      unfolding a by (auto split: option.splits)
  next
    case deep
    with step have a: "a = fs' @ [(KGroup 1, [lookBehind])]"
      by (cases f) auto
    from lit deep have len: "length (stackLit a b) = length (stackLit ?stack cur) + 2"
      by (simp add: titleText_def)
    from inv(1) rest
    have "stackInv (fs' @ [(KGroup 1, [lookBehind])]) b"
      "titleWalk t (fs' @ [(KGroup 1, [lookBehind])], b, d) = Some (stack', cur', n')"
      unfolding a by simp_all
    from Cons.IH[OF this(1) inv(2) this(2)] len deep show ?thesis
      unfolding a by (auto split: option.splits)
  next
    case first
    with step
    have a: "a = []" and
      b: "b = [Group 1 (rev cur @ [Chr backslash, Chr CHR ''?'']), lookBehind]"
      by auto
    then have "bottomNodes a b =
                 [] @ [Group 1 (rev cur @ [Chr backslash, Chr CHR ''?'']), lookBehind]"
      by (simp add: bottomNodes_def)
    from closed_walk[OF this rest] obtain ps' where
      "bottomNodes stack' cur' =
         ps' @ [Group 1 (rev cur @ [Chr backslash, Chr CHR ''?'']), lookBehind]" ..
    moreover from first
    have "length (concat (map literal (rev cur @ [Chr backslash, Chr CHR ''?'']))) =
            length (stackLit ?stack cur) + 2"
      by (simp add: lookBehind_def)
    ultimately show ?thesis using first by auto
  next
    case other
    with step have a: "a = fs @ [(KGroup 1, [lookBehind])]"
      by auto
    from lit other have len: "length (stackLit a b) = Suc (length (stackLit ?stack cur))"
      by (simp add: titleText_def)
    from inv(1) rest
    have "stackInv (fs @ [(KGroup 1, [lookBehind])]) b"
      "titleWalk t (fs @ [(KGroup 1, [lookBehind])], b, d) = Some (stack', cur', n')"
      unfolding a by simp_all
    from Cons.IH[OF this(1) inv(2) this(2)] len other show ?thesis
      unfolding a by (auto split: option.splits)
  qed
qed


lemma groupOneEnd_le:
  "groupOneEnd t depth = Some g \<Longrightarrow> g \<le> length (titleText t)"
proof (induction t arbitrary: depth g)
  case Nil
  then show ?case by simp
next
  case (Cons c t)
  have len: "length (titleText (c # t)) =
               (if c = CHR ''('' \<or> c = CHR '')'' then 2 else 1) + length (titleText t)"
    by (simp add: titleText_def)
  from Cons.prems Cons.IH show ?case
    unfolding len by (auto split: if_splits nat.splits)
qed

lemma captureLength_le: "captureLength t \<le> length (titleText t)"
  by (auto simp: captureLength_def groupOneEnd_le split: option.splits)


lemma parse_scanSource:
  "parsePattern (scanSource t) [] [] 1 =
     (case titleWalk t ([(KGroup 1, [lookBehind])], [], 2) of
        Some ([(k, outer)], cur, n) \<Rightarrow> Inr (rev outer @ [closeFrame k (rev cur), lookAhead], n)
      | _ \<Rightarrow> Inl SyntaxError)"
proof -
  let ?suffix = "'')(?!'' @ [backslash] @ ''|?'' @ [backslash] @ '']'' @ [backslash] @ ''])''"
  have nq: "take 1 (flexParens (escapeRegExp t) @ ?suffix) \<noteq> ''?''"
    by (rule escaped_no_quest) simp
  have "parsePattern (''(?<!'' @ [backslash] @ ''['' @ [backslash] @ ''[)('' @ x) [] [] 1 =
          parsePattern x [(KGroup 1, [lookBehind])] [] 2" if "take 1 x \<noteq> ''?''" for x
    using that no_quest_take[OF that]
    by (simp add: backslash_def syntaxChars_def lookBehind_def numeral_2_eq_2)
  from this[OF nq]
  have pre: "parsePattern (scanSource t) [] [] 1 =
             parsePattern (flexParens (escapeRegExp t) @ ?suffix) [(KGroup 1, [lookBehind])] [] 2"
    by (simp add: scanSource_def)
  have suf: "parsePattern ?suffix stack cur n =
             (case stack of
                [(k, outer)] \<Rightarrow> Inr (rev outer @ [closeFrame k (rev cur), lookAhead], n)
              | _ \<Rightarrow> Inl SyntaxError)" for stack cur n
    by (simp add: backslash_def syntaxChars_def lookAhead_def split: list.splits)
  have "take 1 ?suffix \<noteq> ''?''" by simp
  from parse_title[OF this, of t] pre suf show ?thesis
    by (simp split: option.splits list.splits)
qed

lemma scan_regex:
  assumes "newRegExp (scanSource t) ''gi'' = Inr re"
  shows "ignoreCase re \<and> global re \<and>
         (\<exists>ts rest. nodes re = lookBehind # Group 1 ts # rest @ [lookAhead] \<and>
            list_all (plainFrom 2) ts \<and> list_all (plainFrom 2) rest \<and>
            concat (map literal ts) @ concat (map literal rest) = titleText t \<and>
            length (concat (map literal ts)) = captureLength t)"
proof -
  from assms have
    "(case (case titleWalk t ([(KGroup 1, [lookBehind])], [], 2) of
              Some ([(k, outer)], cur, n) \<Rightarrow>
                Inr (rev outer @ [closeFrame k (rev cur), lookAhead], n)
            | _ \<Rightarrow> Inl SyntaxError) of
        Inl e \<Rightarrow> Inl e
      | Inr (ts, n) \<Rightarrow>
          Inr \<lparr>nodes = ts, groupCount = n - 1,
               ignoreCase = (CHR ''i'' \<in> set ''gi''), global = (CHR ''g'' \<in> set ''gi'')\<rparr>) =
     Inr re"
    unfolding newRegExp_def parse_scanSource .
  then obtain k outer cur n where
    walk: "titleWalk t ([(KGroup 1, [lookBehind])], [], 2) = Some ([(k, outer)], cur, n)" and
    re: "re = \<lparr>nodes = rev outer @ [closeFrame k (rev cur), lookAhead], groupCount = n - 1,
               ignoreCase = True, global = True\<rparr>"
    by (auto split: option.splits list.splits)
  have "stackInv [(KGroup 1, [lookBehind])] []" by simp
  from walk_inv[OF this _ walk]
  have inv: "stackInv [(k, outer)] cur" and
    lit: "concat (map literal (rev outer)) @ concat (map literal (rev cur)) = titleText t"
    by (simp_all add: lookBehind_def)
  from inv have pc: "list_all (plainFrom 2) cur" by simp
  have "stackInv ([] @ [(KGroup 1, [lookBehind])]) []"
    "titleWalk t ([] @ [(KGroup 1, [lookBehind])], [], 2) = Some ([(k, outer)], cur, n)"
    using walk by simp_all
  from open_walk[OF this(1) _ this(2)]
  have cap: "case groupOneEnd t 0 of
               None \<Rightarrow> \<exists>fs'. [(k, outer)] = fs' @ [(KGroup 1, [lookBehind])]
             | Some g \<Rightarrow>
                 \<exists>ps ts. outer = ps @ [Group 1 ts, lookBehind] \<and>
                   length (concat (map literal ts)) = g"
    by (cases "groupOneEnd t 0") (simp_all add: bottomNodes_def lookBehind_def)
  from inv consider
    (first) "k = KGroup 1" "outer = [lookBehind]"
    | (later) j where "2 \<le> j" "k = KGroup j" "bottomShape outer"
    by auto
  then have "\<exists>ts rest. nodes re = lookBehind # Group 1 ts # rest @ [lookAhead] \<and>
            list_all (plainFrom 2) ts \<and> list_all (plainFrom 2) rest \<and>
            concat (map literal ts) @ concat (map literal rest) = titleText t \<and>
            length (concat (map literal ts)) = captureLength t"
  proof cases
    case first
    with cap have "groupOneEnd t 0 = None"
      by (cases "groupOneEnd t 0") auto
    with first lit have "length (concat (map literal (rev cur))) = captureLength t"
      by (simp add: captureLength_def lookBehind_def)
    with first re lit pc
    have "nodes re = lookBehind # Group 1 (rev cur) # [] @ [lookAhead] \<and>
            list_all (plainFrom 2) (rev cur) \<and> list_all (plainFrom 2) ([] :: node list) \<and>
            concat (map literal (rev cur)) @ concat (map literal ([] :: node list)) = titleText t \<and>
            length (concat (map literal (rev cur))) = captureLength t"
      by (simp add: lookBehind_def)
    then show ?thesis by blast
  next
    case later
    then obtain ps ts where outer: "outer = ps @ [Group 1 ts, lookBehind]"
      "list_all (plainFrom 2) ps" "list_all (plainFrom 2) ts"
      by (auto simp: bottomShape_def)
    from later(1,2) cap obtain g where g: "groupOneEnd t 0 = Some g"
      by (cases "groupOneEnd t 0") (auto simp: Cons_eq_append_conv)
    with cap outer(1) have "length (concat (map literal ts)) = g"
      by auto
    with g have "length (concat (map literal ts)) = captureLength t"
      by (simp add: captureLength_def)
    with outer re lit pc later(1,2)
    have "nodes re = lookBehind # Group 1 ts # (rev ps @ [Group j (rev cur)]) @ [lookAhead] \<and>
            list_all (plainFrom 2) ts \<and> list_all (plainFrom 2) (rev ps @ [Group j (rev cur)]) \<and>
            concat (map literal ts) @ concat (map literal (rev ps @ [Group j (rev cur)])) =
              titleText t \<and>
            length (concat (map literal ts)) = captureLength t"
      by (simp add: lookBehind_def)
    then show ?thesis by blast
  qed
  with re show ?thesis by simp
qed

lemma matchSeq_append:
  "matchSeq ic s (xs @ ys) st = concat (map (matchSeq ic s ys) (matchSeq ic s xs st))"
proof (induction xs arbitrary: st)
  case Nil
  then show ?case by simp
next
  case (Cons x xs)
  have flat: "concat (map f (concat xss)) = concat (map (\<lambda>xs. concat (map f xs)) xss)"
    for f :: "nat \<times> captures \<Rightarrow> (nat \<times> captures) list" and xss
    by (induction xss) auto
  have "matchSeq ic s (xs @ ys) = (\<lambda>st. concat (map (matchSeq ic s ys) (matchSeq ic s xs st)))"
    using Cons.IH by (intro ext)
  then show ?case
    by (simp add: flat comp_def)
qed

lemma scan_match:
  assumes "newRegExp (scanSource t) ''gi'' = Inr re"
  shows "\<exists>g. g \<le> length (titleText t) \<and> g = captureLength t \<and>
           (\<forall>s i. \<exists>k'. matchSeq (ignoreCase re) s (nodes re) (i, Map.empty) =
                 (if \<not> precededByOpen s i \<and> agrees True s i (titleText t) \<and>
                     \<not> followedByClose s (i + length (titleText t))
                  then [(i + length (titleText t), k')] else []) \<and>
                 k' 1 = Some (i, i + g))"
proof -
  from scan_regex[OF assms] obtain ts rest where
    ic: "ignoreCase re" and
    nodes: "nodes re = lookBehind # Group 1 ts # rest @ [lookAhead]" and
    pts: "list_all (plainFrom 2) ts" and prest: "list_all (plainFrom 2) rest" and
    lit: "concat (map literal ts) @ concat (map literal rest) = titleText t" and
    cap: "length (concat (map literal ts)) = captureLength t"
    by blast
  let ?g = "length (concat (map literal ts))"
  let ?r = "length (concat (map literal rest))"
  have len: "length (titleText t) = ?g + ?r"
    using lit by (metis length_append)
  have "\<exists>k'. matchSeq (ignoreCase re) s (nodes re) (i, Map.empty) =
                 (if \<not> precededByOpen s i \<and> agrees True s i (titleText t) \<and>
                     \<not> followedByClose s (i + length (titleText t))
                  then [(i + length (titleText t), k')] else []) \<and>
                 k' 1 = Some (i, i + ?g)" for s i
  proof -
    from match_plain(2)[OF pts, of True s "(i, Map.empty)"] obtain k1 where
      "matchSeq True s ts (i, Map.empty) =
         (if agrees True s (fst (i, Map.empty :: captures)) (concat (map literal ts))
          then [(fst (i, Map.empty :: captures) + ?g, k1)] else [])"
      by blast
    then have
      k1: "matchSeq True s ts (i, Map.empty) =
             (if agrees True s i (concat (map literal ts)) then [(i + ?g, k1)] else [])"
      by simp
    let ?st = "(i + ?g, k1(Suc 0 \<mapsto> (i, i + ?g)))"
    from match_plain(2)[OF prest, of True s ?st] obtain k2 where
      "matchSeq True s rest ?st =
         (if agrees True s (fst ?st) (concat (map literal rest))
          then [(fst ?st + ?r, k2)] else [])"
      "\<forall>j < 2. k2 j = snd ?st j"
      by blast
    then have
      k2: "matchSeq True s rest (i + ?g, k1(Suc 0 \<mapsto> (i, i + ?g))) =
             (if agrees True s (i + ?g) (concat (map literal rest)) then [(i + ?g + ?r, k2)] else [])"
          "\<forall>j < 2. k2 j = (k1(Suc 0 \<mapsto> (i, i + ?g))) j"
      by simp_all
    from k2(2) have k21: "k2 1 = Some (i, i + ?g)" by simp
    have ag: "agrees True s i (titleText t) =
                (agrees True s i (concat (map literal ts)) \<and>
                 agrees True s (i + ?g) (concat (map literal rest)))"
      unfolding lit[symmetric] by (rule agrees_append)
    have "matchSeq True s (nodes re) (i, Map.empty) =
                 (if \<not> precededByOpen s i \<and> agrees True s i (titleText t) \<and>
                     \<not> followedByClose s (i + length (titleText t))
                  then [(i + length (titleText t), k2)] else [])"
      unfolding nodes
      by (simp add: match_lookBehind match_lookAhead matchSeq_append k1 k2(1) ag len add.assoc
          del: matchNode.simps(7,8))
    with ic k21 show ?thesis by auto
  qed
  moreover have "?g \<le> length (titleText t)" using len by simp
  moreover note cap
  ultimately show ?thesis by blast
qed

section \<open>The scan loop\<close>

text \<open>
  The loop around \<^verbatim>\<open>regex.exec\<close>: what it returns when it returns, that it returns for a
  title that is not empty, and that it does not for the empty title at a free offset.
\<close>

lemma scan_firstMatch:
  assumes "newRegExp (scanSource t) ''gi'' = Inr re"
  shows "\<exists>g. g \<le> length (titleText t) \<and> g = captureLength t \<and>
           (\<forall>s is.
              (case firstMatch re s is of
                 None \<Rightarrow> \<forall>i \<in> set is. \<not> occursAt t s i
               | Some m \<Rightarrow>
                   index m \<in> set is \<and> occursAt t s (index m) \<and>
                   endIndex m = index m + length (titleText t) \<and>
                   groups m 1 = Some (index m, index m + g) \<and>
                   (\<forall>j \<in> set (takeWhile (\<lambda>j. j \<noteq> index m) is). \<not> occursAt t s j)))"
proof -
  from scan_match[OF assms] obtain g where
    g: "g \<le> length (titleText t)" "g = captureLength t" and
    m: "\<And>s i. \<exists>k'. matchSeq (ignoreCase re) s (nodes re) (i, Map.empty) =
                 (if occursAt t s i then [(i + length (titleText t), k')] else []) \<and>
                 k' 1 = Some (i, i + g)"
    unfolding occursAt_def by blast
  have "(case firstMatch re s is of
                 None \<Rightarrow> \<forall>i \<in> set is. \<not> occursAt t s i
               | Some m \<Rightarrow>
                   index m \<in> set is \<and> occursAt t s (index m) \<and>
                   endIndex m = index m + length (titleText t) \<and>
                   groups m 1 = Some (index m, index m + g) \<and>
                   (\<forall>j \<in> set (takeWhile (\<lambda>j. j \<noteq> index m) is). \<not> occursAt t s j))" for s "is"
  proof (induction "is")
    case Nil
    then show ?case by simp
  next
    case (Cons i "is")
    from m[of s i] obtain k' where
      k': "matchSeq (ignoreCase re) s (nodes re) (i, Map.empty) =
             (if occursAt t s i then [(i + length (titleText t), k')] else [])"
          "k' 1 = Some (i, i + g)"
      by blast
    show ?case
    proof (cases "occursAt t s i")
      case True
      with k' show ?thesis by simp
    next
      case False
      with k' Cons show ?thesis
        by (auto split: option.splits)
    qed
  qed
  with g show ?thesis by blast
qed

lemma takeWhile_upt:
  "a \<le> x \<Longrightarrow> x < b \<Longrightarrow> takeWhile (\<lambda>j. j \<noteq> x) [a ..< b] = [a ..< x]"
proof (induction "x - a" arbitrary: a)
  case 0
  then show ?case by (simp add: upt_conv_Cons)
next
  case (Suc d)
  then have "a < x" "a < b" "d = x - Suc a" by auto
  with Suc.hyps(1)[of "Suc a"] Suc.prems show ?case
    by (simp add: upt_conv_Cons)
qed

lemma scan_regexExec:
  assumes "newRegExp (scanSource t) ''gi'' = Inr re"
  shows "\<exists>g. g \<le> length (titleText t) \<and> g = captureLength t \<and>
           (\<forall>s li.
              (case regexExec re s li of
                 (None, e) \<Rightarrow> \<forall>i. li \<le> i \<and> i \<le> length s \<longrightarrow> \<not> occursAt t s i
               | (Some m, e) \<Rightarrow>
                   li \<le> index m \<and> index m \<le> length s \<and> occursAt t s (index m) \<and>
                   endIndex m = index m + length (titleText t) \<and> e = endIndex m \<and>
                   groups m 1 = Some (index m, index m + g) \<and>
                   (\<forall>j. li \<le> j \<and> j < index m \<longrightarrow> \<not> occursAt t s j)))"
proof -
  from scan_regex[OF assms] have gl: "global re" by simp
  from scan_firstMatch[OF assms] obtain g where
    g: "g \<le> length (titleText t)" "g = captureLength t" and
    fm: "\<And>s ps.
              (case firstMatch re s ps of
                 None \<Rightarrow> \<forall>i \<in> set ps. \<not> occursAt t s i
               | Some m \<Rightarrow>
                   index m \<in> set ps \<and> occursAt t s (index m) \<and>
                   endIndex m = index m + length (titleText t) \<and>
                   groups m 1 = Some (index m, index m + g) \<and>
                   (\<forall>j \<in> set (takeWhile (\<lambda>j. j \<noteq> index m) ps). \<not> occursAt t s j))"
    by blast
  have main: "(case regexExec re s li of
                 (None, e) \<Rightarrow> \<forall>i. li \<le> i \<and> i \<le> length s \<longrightarrow> \<not> occursAt t s i
               | (Some m, e) \<Rightarrow>
                   li \<le> index m \<and> index m \<le> length s \<and> occursAt t s (index m) \<and>
                   endIndex m = index m + length (titleText t) \<and> e = endIndex m \<and>
                   groups m 1 = Some (index m, index m + g) \<and>
                   (\<forall>j. li \<le> j \<and> j < index m \<longrightarrow> \<not> occursAt t s j))" for s li
  proof (cases "firstMatch re s [li ..< Suc (length s)]")
    case None
    with fm[where s = s and ps = "[li ..< Suc (length s)]"] gl show ?thesis
      by (auto simp: regexExec_def)
  next
    case (Some m)
    with fm[where s = s and ps = "[li ..< Suc (length s)]"] have
      m: "li \<le> index m" "index m < Suc (length s)" "occursAt t s (index m)"
         "endIndex m = index m + length (titleText t)"
         "groups m 1 = Some (index m, index m + g)"
         "\<forall>j \<in> set (takeWhile (\<lambda>j. j \<noteq> index m) [li ..< Suc (length s)]). \<not> occursAt t s j"
      by auto
    from m(6) takeWhile_upt[OF m(1,2)]
    have "\<forall>j. li \<le> j \<and> j < index m \<longrightarrow> \<not> occursAt t s j"
      by simp
    with m Some gl show ?thesis
      by (simp add: regexExec_def)
  qed
  show ?thesis
  proof (intro exI[of _ g] conjI allI)
    show "g \<le> length (titleText t)" by (rule g(1))
  next
    show "g = captureLength t" by (rule g(2))
  next
    fix s li
    show "(case regexExec re s li of
                 (None, e) \<Rightarrow> \<forall>i. li \<le> i \<and> i \<le> length s \<longrightarrow> \<not> occursAt t s i
               | (Some m, e) \<Rightarrow>
                   li \<le> index m \<and> index m \<le> length s \<and> occursAt t s (index m) \<and>
                   endIndex m = index m + length (titleText t) \<and> e = endIndex m \<and>
                   groups m 1 = Some (index m, index m + g) \<and>
                   (\<forall>j. li \<le> j \<and> j < index m \<longrightarrow> \<not> occursAt t s j))"
      by (rule main)
  qed
qed

lemma agrees_bound: "agrees ic s p w \<Longrightarrow> p \<le> length s \<Longrightarrow> p + length w \<le> length s"
proof (induction w arbitrary: p)
  case Nil
  then show ?case by simp
next
  case (Cons c w)
  then have "agrees ic s (Suc p) w" "Suc p \<le> length s" by auto
  from Cons.IH[OF this] show ?case by simp
qed

lemma potentialLink_simps [simp]:
  "link.title (potentialLink n input m o') = noteEntry.title n"
  "notePath (potentialLink n input m o') = noteEntry.path n"
  "originalMatch (potentialLink n input m o') = o'"
  "linkStart (potentialLink n input m o') = index m"
  "linkEnd (potentialLink n input m o') = endIndex m"
  by (simp_all add: potentialLink_def linkStart_def linkEnd_def)

lemma execLoop_cover:
  assumes re: "newRegExp (scanSource t) ''gi'' = Inr re"
    and run: "execLoop re s n li acc = Some r"
  shows "\<exists>new. r = Inr (acc @ new) \<and>
           (\<forall>acc'. execLoop re s n li acc' = Some (Inr (acc' @ new))) \<and>
           (\<forall>l \<in> set new. goodLink t n s l \<and> li \<le> linkStart l) \<and>
           (titleText t \<noteq> [] \<longrightarrow> sorted_wrt (<) (map linkStart new)) \<and>
           (titleText t \<noteq> [] \<longrightarrow>
              (\<forall>i. li \<le> i \<and> i \<le> length s \<and> occursAt t s i \<longrightarrow>
                   (\<exists>l \<in> set new. linkStart l \<le> i \<and> i < linkEnd l)))"
proof -
  from scan_regexExec[OF re] obtain g where
    g: "g \<le> length (titleText t)" "g = captureLength t" and
    ex: "\<And>s li.
              (case regexExec re s li of
                 (None, e) \<Rightarrow> \<forall>i. li \<le> i \<and> i \<le> length s \<longrightarrow> \<not> occursAt t s i
               | (Some m, e) \<Rightarrow>
                   li \<le> index m \<and> index m \<le> length s \<and> occursAt t s (index m) \<and>
                   endIndex m = index m + length (titleText t) \<and> e = endIndex m \<and>
                   groups m 1 = Some (index m, index m + g) \<and>
                   (\<forall>j. li \<le> j \<and> j < index m \<longrightarrow> \<not> occursAt t s j))"
    by blast
  let ?P = "\<lambda>regex content n li acc r.
     regex = re \<longrightarrow>
       (\<exists>new. r = Inr (acc @ new) \<and>
           (\<forall>acc'. execLoop re content n li acc' = Some (Inr (acc' @ new))) \<and>
           (\<forall>l \<in> set new. goodLink t n content l \<and> li \<le> linkStart l) \<and>
           (titleText t \<noteq> [] \<longrightarrow> sorted_wrt (<) (map linkStart new)) \<and>
           (titleText t \<noteq> [] \<longrightarrow>
              (\<forall>i. li \<le> i \<and> i \<le> length content \<and> occursAt t content i \<longrightarrow>
                   (\<exists>l \<in> set new. linkStart l \<le> i \<and> i < linkEnd l))))"
  have "?P re s n li acc r"
  proof (rule execLoop.raw_induct[where P = ?P, OF _ run], intro impI)
    fix f regex content n li acc r
    assume IH: "\<And>regex content n li acc r. f regex content n li acc = Some r \<Longrightarrow>
                  ?P regex content n li acc r"
      and body: "(case regexExec regex content li of
                    (None, lastIndex') \<Rightarrow> Some (Inr acc)
                  | (Some m, lastIndex') \<Rightarrow>
                      (case groups m 1 of
                         None \<Rightarrow> Some (Inl TypeError)
                       | Some (a, b) \<Rightarrow>
                           f regex content n lastIndex'
                             (acc @ [potentialLink n content m (slice content a b)]))) = Some r"
      and regex: "regex = re"
    obtain mo e where rx: "regexExec re content li = (mo, e)"
      by (cases "regexExec re content li")
    show "\<exists>new. r = Inr (acc @ new) \<and>
           (\<forall>acc'. execLoop re content n li acc' = Some (Inr (acc' @ new))) \<and>
           (\<forall>l \<in> set new. goodLink t n content l \<and> li \<le> linkStart l) \<and>
           (titleText t \<noteq> [] \<longrightarrow> sorted_wrt (<) (map linkStart new)) \<and>
           (titleText t \<noteq> [] \<longrightarrow>
              (\<forall>i. li \<le> i \<and> i \<le> length content \<and> occursAt t content i \<longrightarrow>
                   (\<exists>l \<in> set new. linkStart l \<le> i \<and> i < linkEnd l)))"
    proof (cases mo)
      case None
      with body rx regex have r1: "r = Inr (acc @ [])" by simp
      from None rx have r2: "\<forall>acc'. execLoop re content n li acc' = Some (Inr (acc' @ []))"
        by (subst execLoop.simps) simp
      from None rx ex[where s = content and li = li]
      have no: "\<forall>i. li \<le> i \<and> i \<le> length content \<longrightarrow> \<not> occursAt t content i"
        by simp
      have r3: "\<forall>l \<in> set []. goodLink t n content l \<and> li \<le> linkStart l"
        by simp
      have r4: "titleText t \<noteq> [] \<longrightarrow> sorted_wrt (<) (map linkStart [])"
        by simp
      from no have r5: "titleText t \<noteq> [] \<longrightarrow>
              (\<forall>i. li \<le> i \<and> i \<le> length content \<and> occursAt t content i \<longrightarrow>
                   (\<exists>l \<in> set []. linkStart l \<le> i \<and> i < linkEnd l))"
        by blast
      show ?thesis
        by (intro exI[of _ "[]"] conjI r1 r2 r3 r4 r5)
    next
      case (Some m)
      with ex[where s = content and li = li] rx have
        m: "li \<le> index m" "index m \<le> length content" "occursAt t content (index m)"
           "endIndex m = index m + length (titleText t)" "e = endIndex m"
           "groups m 1 = Some (index m, index m + g)"
           "\<forall>j. li \<le> j \<and> j < index m \<longrightarrow> \<not> occursAt t content j"
        by auto
      let ?l = "potentialLink n content m (slice content (index m) (index m + g))"
      from body rx regex Some m(6) have "f re content n e (acc @ [?l]) = Some r"
        by simp
      from IH[OF this] obtain new where
        new: "r = Inr ((acc @ [?l]) @ new)"
             "\<forall>acc'. execLoop re content n e acc' = Some (Inr (acc' @ new))"
             "\<forall>l \<in> set new. goodLink t n content l \<and> e \<le> linkStart l"
             "titleText t \<noteq> [] \<longrightarrow> sorted_wrt (<) (map linkStart new)"
             "titleText t \<noteq> [] \<longrightarrow>
                (\<forall>i. e \<le> i \<and> i \<le> length content \<and> occursAt t content i \<longrightarrow>
                     (\<exists>l \<in> set new. linkStart l \<le> i \<and> i < linkEnd l))"
        by blast
      have step: "execLoop re content n li acc' = execLoop re content n e (acc' @ [?l])" for acc'
        using rx Some m(6) by (subst execLoop.simps) simp
      from m(3) have "agrees True content (index m) (titleText t)"
        by (simp add: occursAt_def)
      from agrees_bound[OF this m(2)] m(4) have "endIndex m \<le> length content"
        by simp
      with m(1-6) g have good: "goodLink t n content ?l"
        unfolding goodLink_def by auto
      have r1: "r = Inr (acc @ (?l # new))"
        using new(1) by simp
      have r2: "\<forall>acc'. execLoop re content n li acc' = Some (Inr (acc' @ (?l # new)))"
        using new(2) step by simp
      have r3: "\<forall>l \<in> set (?l # new). goodLink t n content l \<and> li \<le> linkStart l"
        using good new(3) m(1,4,5) by auto
      have r4: "titleText t \<noteq> [] \<longrightarrow> sorted_wrt (<) (map linkStart (?l # new))"
      proof
        assume ne: "titleText t \<noteq> []"
        then have "index m < e" using m(4,5) by simp
        with new(3) have "\<forall>x \<in> set new. index m < linkStart x" by fastforce
        with new(4) ne show "sorted_wrt (<) (map linkStart (?l # new))" by simp
      qed
      have r5: "titleText t \<noteq> [] \<longrightarrow>
              (\<forall>i. li \<le> i \<and> i \<le> length content \<and> occursAt t content i \<longrightarrow>
                   (\<exists>l \<in> set (?l # new). linkStart l \<le> i \<and> i < linkEnd l))"
      proof (intro impI allI)
        fix i
        assume ne: "titleText t \<noteq> []"
          and i: "li \<le> i \<and> i \<le> length content \<and> occursAt t content i"
        have lo: "index m \<le> i"
        proof (rule ccontr)
          assume "\<not> index m \<le> i"
          with i have "li \<le> i \<and> i < index m" by simp
          with m(7) have "\<not> occursAt t content i" by blast
          with i show False by simp
        qed
        show "\<exists>l \<in> set (?l # new). linkStart l \<le> i \<and> i < linkEnd l"
        proof (cases "i < e")
          case True
          with lo m(5) have "linkStart ?l \<le> i \<and> i < linkEnd ?l"
            by simp
          then show ?thesis by simp
        next
          case False
          with i have "e \<le> i \<and> i \<le> length content \<and> occursAt t content i"
            by simp
          with new(5) ne have "\<exists>l \<in> set new. linkStart l \<le> i \<and> i < linkEnd l"
            by blast
          then show ?thesis by auto
        qed
      qed
      show ?thesis
        by (intro exI[of _ "?l # new"] conjI r1 r2 r3 r4 r5)
    qed
  qed
  then show ?thesis by simp
qed

lemma execLoop_sound:
  assumes re: "newRegExp (scanSource t) ''gi'' = Inr re"
    and run: "execLoop re s n li acc = Some r"
  shows "\<exists>new. r = Inr (acc @ new) \<and>
           (\<forall>acc'. execLoop re s n li acc' = Some (Inr (acc' @ new))) \<and>
           (\<forall>l \<in> set new. goodLink t n s l \<and> li \<le> linkStart l) \<and>
           (titleText t \<noteq> [] \<longrightarrow> sorted_wrt (<) (map linkStart new))"
proof -
  from execLoop_cover[OF re run] obtain new where
    r1: "r = Inr (acc @ new)" and
    r2: "\<forall>acc'. execLoop re s n li acc' = Some (Inr (acc' @ new))" and
    r3: "\<forall>l \<in> set new. goodLink t n s l \<and> li \<le> linkStart l" and
    r4: "titleText t \<noteq> [] \<longrightarrow> sorted_wrt (<) (map linkStart new)"
    by (elim exE conjE)
  show ?thesis
    by (intro exI[of _ new] conjI r1 r2 r3 r4)
qed

lemma titleText_empty [simp]: "(titleText t = []) = (t = [])"
  by (cases t) (auto simp: titleText_def)

lemma titleText_Nil [simp]: "titleText [] = []"
  by simp

lemma execLoop_terminates:
  assumes re: "newRegExp (scanSource t) ''gi'' = Inr re" and ne: "t \<noteq> []"
  shows "\<exists>r. execLoop re s n li acc = Some r"
proof -
  from scan_regexExec[OF re] obtain g where
    ex: "\<And>s li.
              (case regexExec re s li of
                 (None, e) \<Rightarrow> \<forall>i. li \<le> i \<and> i \<le> length s \<longrightarrow> \<not> occursAt t s i
               | (Some m, e) \<Rightarrow>
                   li \<le> index m \<and> index m \<le> length s \<and> occursAt t s (index m) \<and>
                   endIndex m = index m + length (titleText t) \<and> e = endIndex m \<and>
                   groups m 1 = Some (index m, index m + g) \<and>
                   (\<forall>j. li \<le> j \<and> j < index m \<longrightarrow> \<not> occursAt t s j))"
    by blast
  show ?thesis
  proof (induction "Suc (length s) - li" arbitrary: li acc rule: less_induct)
    case less
    obtain mo e where rx: "regexExec re s li = (mo, e)"
      by (cases "regexExec re s li")
    show ?case
    proof (cases mo)
      case None
      with rx show ?thesis by (subst execLoop.simps) simp
    next
      case (Some m)
      with ex[where s = s and li = li] rx have
        m: "li \<le> index m" "index m \<le> length s" "occursAt t s (index m)"
           "endIndex m = index m + length (titleText t)" "e = endIndex m"
           "groups m 1 = Some (index m, index m + g)"
        by auto
      from m(3) have "agrees True s (index m) (titleText t)"
        by (simp add: occursAt_def)
      from agrees_bound[OF this m(2)] m(4,5) have "e \<le> length s" by simp
      moreover obtain d where "length (titleText t) = Suc d"
        using ne by (cases "titleText t") auto
      with m(1,4,5) have "li < e" by simp
      ultimately have "Suc (length s) - e < Suc (length s) - li" by simp
      from less[OF this] obtain r where
        "execLoop re s n e (acc @ [potentialLink n s m (slice s (index m) (index m + g))]) =
           Some r"
        by blast
      with rx Some m(6) show ?thesis by (subst execLoop.simps) simp
    qed
  qed
qed

lemma execLoop_stuck:
  assumes re: "newRegExp (scanSource []) ''gi'' = Inr re"
    and at: "occursAt [] s i" "i \<le> length s"
  shows "execLoop re s n i acc = None"
proof (rule ccontr)
  assume "execLoop re s n i acc \<noteq> None"
  then obtain r where run: "execLoop re s n i acc = Some r" by auto
  from scan_regexExec[OF re] obtain g where
    ex: "\<And>s li.
              (case regexExec re s li of
                 (None, e) \<Rightarrow> \<forall>i. li \<le> i \<and> i \<le> length s \<longrightarrow> \<not> occursAt [] s i
               | (Some m, e) \<Rightarrow>
                   li \<le> index m \<and> index m \<le> length s \<and> occursAt [] s (index m) \<and>
                   endIndex m = index m + length (titleText []) \<and> e = endIndex m \<and>
                   groups m 1 = Some (index m, index m + g) \<and>
                   (\<forall>j. li \<le> j \<and> j < index m \<longrightarrow> \<not> occursAt [] s j))"
    by blast
  obtain mo e where rx: "regexExec re s i = (mo, e)"
    by (cases "regexExec re s i")
  from ex[where s = s and li = i] rx at obtain m where
    mo: "mo = Some m" and
    m: "i \<le> index m" "e = endIndex m" "endIndex m = index m + length (titleText [])"
       "groups m 1 = Some (index m, index m + g)"
       "\<forall>j. i \<le> j \<and> j < index m \<longrightarrow> \<not> occursAt [] s j"
    by (cases mo) auto
  from m(1,5) at(1) have "index m = i"
    by (cases "i < index m") auto
  with m(2,3) have e: "e = i" by simp
  let ?P = "\<lambda>regex content (n :: noteEntry) li (acc :: link list) (r :: jsError + link list).
              \<not> (regex = re \<and> content = s \<and> li = i)"
  have "?P re s n i acc r"
  proof (rule execLoop.raw_induct[where P = ?P, OF _ run], rule notI)
    fix f regex content n li acc r
    assume IH: "\<And>regex content n li acc r. f regex content n li acc = Some r \<Longrightarrow>
                  ?P regex content n li acc r"
      and body: "(case regexExec regex content li of
                    (None, lastIndex') \<Rightarrow> Some (Inr acc)
                  | (Some m, lastIndex') \<Rightarrow>
                      (case groups m 1 of
                         None \<Rightarrow> Some (Inl TypeError)
                       | Some (a, b) \<Rightarrow>
                           f regex content n lastIndex'
                             (acc @ [potentialLink n content m (slice content a b)]))) = Some r"
      and same: "regex = re \<and> content = s \<and> li = i"
    from body same rx mo m(4) e
    have "f re s n i (acc @ [potentialLink n s m (slice s (index m) (index m + g))]) = Some r"
      by simp
    from IH[OF this] show False by simp
  qed
  then show False by simp
qed

lemma free_position: "\<exists>i \<le> length s. \<not> precededByOpen s i \<and> \<not> followedByClose s i"
proof (rule ccontr)
  assume "\<not> ?thesis"
  then have all: "\<And>i. i \<le> length s \<Longrightarrow> precededByOpen s i \<or> followedByClose s i"
    by blast
  have "j \<le> length s \<Longrightarrow> followedByClose s j" for j
  proof (induction j)
    case 0
    with all[of 0] show ?case by (simp add: precededByOpen_def)
  next
    case (Suc j)
    then have fj: "followedByClose s j" by simp
    then have "s ! j \<noteq> CHR ''[''"
      by (auto simp: followedByClose_def startsWith_drop_Cons)
    then have "\<not> precededByOpen s (Suc j)"
      by (auto simp: precededByOpen_def startsWith_drop_Cons Suc_diff_Suc numeral_2_eq_2)
    with all[OF Suc.prems] show ?case by simp
  qed
  then have "followedByClose s (length s)" by simp
  then show False by (simp add: followedByClose_def startsWith_def)
qed

lemma execLoop_empty_title:
  assumes re: "newRegExp (scanSource []) ''gi'' = Inr re"
  shows "execLoop re s n 0 acc = None"
proof -
  from scan_regexExec[OF re] obtain g where
    ex: "\<And>s li.
              (case regexExec re s li of
                 (None, e) \<Rightarrow> \<forall>i. li \<le> i \<and> i \<le> length s \<longrightarrow> \<not> occursAt [] s i
               | (Some m, e) \<Rightarrow>
                   li \<le> index m \<and> index m \<le> length s \<and> occursAt [] s (index m) \<and>
                   endIndex m = index m + length (titleText []) \<and> e = endIndex m \<and>
                   groups m 1 = Some (index m, index m + g) \<and>
                   (\<forall>j. li \<le> j \<and> j < index m \<longrightarrow> \<not> occursAt [] s j))"
    by blast
  from free_position[of s] obtain i where "i \<le> length s" "occursAt [] s i"
    by (auto simp: occursAt_def)
  obtain mo e where rx: "regexExec re s 0 = (mo, e)"
    by (cases "regexExec re s 0")
  with ex[where s = s and li = 0] \<open>i \<le> length s\<close> \<open>occursAt [] s i\<close> obtain m where
    mo: "mo = Some m" and
    m: "index m \<le> length s" "occursAt [] s (index m)" "e = endIndex m"
       "endIndex m = index m + length (titleText [])"
       "groups m 1 = Some (index m, index m + g)"
    by (cases mo) auto
  from m(3,4) have "e = index m" by simp
  with execLoop_stuck[OF re m(2,1)] rx mo m(5) show ?thesis
    by (subst execLoop.simps) simp
qed

lemma newRegExp_scan_error:
  "newRegExp (scanSource t) ''gi'' = Inl e \<Longrightarrow> e = SyntaxError"
  unfolding newRegExp_def parse_scanSource
  by (auto split: option.splits list.splits)

lemma newRegExp_scan_empty: "\<exists>re. newRegExp (scanSource []) ''gi'' = Inr re"
  unfolding newRegExp_def parse_scanSource by simp

lemma noteLinks_sound:
  assumes "noteLinks n s = Some (Inr ls)"
  shows "(\<forall>l \<in> set ls. goodLink (noteEntry.title n) n s l) \<and>
         sorted_wrt (<) (map linkStart ls)"
proof -
  from assms obtain re where
    re: "newRegExp (scanSource (noteEntry.title n)) ''gi'' = Inr re" and
    run: "execLoop re s n 0 [] = Some (Inr ls)"
    by (auto simp: noteLinks_def split: sum.splits)
  from execLoop_sound[OF re run] have
    good: "\<forall>l \<in> set ls. goodLink (noteEntry.title n) n s l" and
    srt: "titleText (noteEntry.title n) \<noteq> [] \<longrightarrow> sorted_wrt (<) (map linkStart ls)"
    by auto
  show ?thesis
  proof (cases "noteEntry.title n = []")
    case True
    with re run execLoop_empty_title[of re s n "[]"] show ?thesis by simp
  next
    case False
    with good srt show ?thesis by simp
  qed
qed

lemma scanNotes_sound:
  "scanNotes ns s acc = Some (Inr links) \<Longrightarrow>
   \<exists>perNote. list_all2 (\<lambda>n ls. noteLinks n s = Some (Inr ls)) ns perNote \<and>
             links = acc @ concat perNote"
proof (induction ns arbitrary: acc)
  case Nil
  then show ?case by simp
next
  case (Cons n ns)
  from Cons.prems obtain re acc' where
    re: "newRegExp (scanSource (noteEntry.title n)) ''gi'' = Inr re" and
    run: "execLoop re s n 0 acc = Some (Inr acc')" and
    rest: "scanNotes ns s acc' = Some (Inr links)"
    by (auto split: sum.splits option.splits)
  from execLoop_sound[OF re run] obtain new where
    new: "acc' = acc @ new" "execLoop re s n 0 [] = Some (Inr ([] @ new))"
    by blast
  from Cons.IH[OF rest] obtain perNote where
    pn: "list_all2 (\<lambda>n ls. noteLinks n s = Some (Inr ls)) ns perNote"
        "links = acc' @ concat perNote"
    by blast
  from re new(2) have "noteLinks n s = Some (Inr new)"
    by (simp add: noteLinks_def)
  with pn new(1) have
    "list_all2 (\<lambda>n ls. noteLinks n s = Some (Inr ls)) (n # ns) (new # perNote) \<and>
     links = acc @ concat (new # perNote)"
    by simp
  then show ?case by blast
qed

lemma scanNotes_terminates:
  "\<forall>n \<in> set ns. noteEntry.title n \<noteq> [] \<Longrightarrow> \<exists>r. scanNotes ns s acc = Some r"
proof (induction ns arbitrary: acc)
  case Nil
  then show ?case by simp
next
  case (Cons n ns)
  show ?case
  proof (cases "newRegExp (scanSource (noteEntry.title n)) ''gi''")
    case (Inl e)
    then show ?thesis by simp
  next
    case (Inr re)
    from Cons.prems have "noteEntry.title n \<noteq> []" by simp
    from execLoop_terminates[OF Inr this] obtain r where
      run: "execLoop re s n 0 acc = Some r"
      by blast
    from execLoop_sound[OF Inr run] obtain new where "r = Inr (acc @ new)"
      by blast
    with Inr run Cons.IH[of "acc @ new"] Cons.prems show ?thesis
      by simp
  qed
qed

lemma scanNotes_diverges:
  assumes "noteEntry.title n = []"
    and "\<forall>p \<in> set pre. \<exists>re. newRegExp (scanSource (noteEntry.title p)) ''gi'' = Inr re"
  shows "scanNotes (pre @ n # post) s acc = None"
  using assms(2)
proof (induction pre arbitrary: acc)
  case Nil
  from newRegExp_scan_empty obtain re where re: "newRegExp (scanSource []) ''gi'' = Inr re"
    by blast
  with assms(1) execLoop_empty_title[OF re, of s n acc] show ?case
    by simp
next
  case (Cons p pre)
  then obtain re where re: "newRegExp (scanSource (noteEntry.title p)) ''gi'' = Inr re"
    by auto
  show ?case
  proof (cases "execLoop re s p 0 acc")
    case None
    with re show ?thesis by simp
  next
    case (Some r)
    from execLoop_sound[OF re Some] obtain new where "r = Inr (acc @ new)"
      by blast
    with re Some Cons.IH[of "acc @ new"] Cons.prems show ?thesis
      by simp
  qed
qed

lemma detect_sound:
  assumes "detectPotentialLinks this content = Some (Inr links)"
  shows "\<exists>perNote.
           list_all2 (\<lambda>n ls. noteLinks n content = Some (Inr ls)) (noteTitlesCache this) perNote \<and>
           links = sort_key linkStart (concat perNote)"
proof -
  from assms obtain detected where
    d: "scanNotes (noteTitlesCache this) content [] = Some (Inr detected)"
       "links = sort_key (\<lambda>l. fst (matchIndex l)) detected"
    by (auto simp: detectPotentialLinks_def split: option.splits sum.splits)
  from scanNotes_sound[OF d(1)] d(2) show ?thesis
    by (auto simp: linkStart_def[abs_def])
qed

lemma detect_good:
  assumes "detectPotentialLinks this content = Some (Inr links)" "l \<in> set links"
  shows "\<exists>n \<in> set (noteTitlesCache this). goodLink (noteEntry.title n) n content l"
proof -
  from detect_sound[OF assms(1)] obtain perNote where
    pn: "list_all2 (\<lambda>n ls. noteLinks n content = Some (Inr ls)) (noteTitlesCache this) perNote"
        "links = sort_key linkStart (concat perNote)"
    by blast
  with assms(2) obtain ls where ls: "ls \<in> set perNote" "l \<in> set ls"
    by auto
  then obtain i where i: "i < length perNote" "perNote ! i = ls"
    by (auto simp: in_set_conv_nth)
  with pn(1) have "noteLinks (noteTitlesCache this ! i) content = Some (Inr ls)"
    and "i < length (noteTitlesCache this)"
    by (auto simp: list_all2_conv_all_nth)
  with noteLinks_sound[of "noteTitlesCache this ! i" content ls] ls(2)
  show ?thesis
    by (meson nth_mem)
qed

text \<open>
  Claim C2, as stated: no span of a link lies inside an existing bracketed reference. The
  claim fails for a title that is a proper part of the text of a reference: in
  \<^verbatim>\<open>[[My Existing Title notes]]\<close> the title \<^verbatim>\<open>Existing Title\<close> stands at offset 5, two
  characters after the opening brackets and six before the closing ones, so neither
  lookaround of the pattern sees a bracket, and the scan returns the span from 5 to 19.
\<close>

theorem inside_reference_counterexample:
  "detectPotentialLinks (indexOf [''Existing Title'']) ''[[My Existing Title notes]]'' =
     Some (Inr [\<lparr>link.title = ''Existing Title'',
                 surroundingText = ''[[My Existing Title notes]]'',
                 originalMatch = ''Existing Title'', notePath = ''Existing Title.md'',
                 matchIndex = (5, 19)\<rparr>])"
  by code_simp

text \<open>
  Claim C2, amended: whatever the text and the indexed titles, no link that the scan returns
  starts right after an opening \<^verbatim>\<open>[[\<close>, and none ends right before a closing
  \<^verbatim>\<open>]]\<close> or before \<^verbatim>\<open>|]]\<close>; the span of a link is its \<open>matchIndex\<close>. In
  particular the text \<^verbatim>\<open>[[Existing Title]]\<close>, scanned with the title
  \<^verbatim>\<open>Existing Title\<close>, gives no link.
\<close>

theorem no_link_inside_brackets:
  "(detectPotentialLinks this content = Some (Inr links) \<longrightarrow>
      (\<forall>l \<in> set links.
         \<not> precededByOpen content (fst (matchIndex l)) \<and>
         \<not> followedByClose content (snd (matchIndex l)))) \<and>
   detectPotentialLinks (indexOf [''Existing Title'']) ''[[Existing Title]]'' = Some (Inr [])"
proof (intro conjI impI ballI)
  fix l
  assume "detectPotentialLinks this content = Some (Inr links)" "l \<in> set links"
  from detect_good[OF this] obtain n where "goodLink (noteEntry.title n) n content l"
    by blast
  then show "\<not> precededByOpen content (fst (matchIndex l))"
    and "\<not> followedByClose content (snd (matchIndex l))"
    by (auto simp: goodLink_def occursAt_def linkStart_def linkEnd_def)
next
  show "detectPotentialLinks (indexOf [''Existing Title'']) ''[[Existing Title]]'' = Some (Inr [])"
    by code_simp
qed

theorem no_link_inside_brackets_witness:
  "detectPotentialLinks (indexOf [''Existing Title'']) bracketedText =
     Some (Inr [\<lparr>link.title = ''Existing Title'',
                 surroundingText = ''Existing Title, [[Existing Title]]'',
                 originalMatch = ''Existing Title'', notePath = ''Existing Title.md'',
                 matchIndex = (0, 14)\<rparr>]) \<and>
   \<not> precededByOpen bracketedText 0 \<and> \<not> followedByClose bracketedText 14 \<and>
   precededByOpen bracketedText 18 \<and> followedByClose bracketedText 32 \<and>
   precededByOpen bracketedText 38 \<and> followedByClose bracketedText 77"
proof -
  let ?l = "\<lparr>link.title = ''Existing Title'',
                 surroundingText = ''Existing Title, [[Existing Title]]'',
                 originalMatch = ''Existing Title'', notePath = ''Existing Title.md'',
                 matchIndex = (0, 14)\<rparr>"
  have run: "detectPotentialLinks (indexOf [''Existing Title'']) bracketedText = Some (Inr [?l])"
    by code_simp
  from no_link_inside_brackets[of "indexOf [''Existing Title'']" bracketedText "[?l]"] run
  have "\<not> precededByOpen bracketedText 0 \<and> \<not> followedByClose bracketedText 14"
    by simp
  moreover have "precededByOpen bracketedText 18 \<and> followedByClose bracketedText 32 \<and>
   precededByOpen bracketedText 38 \<and> followedByClose bracketedText 77"
    by code_simp
  ultimately show ?thesis using run by simp
qed

section \<open>Order and termination of the scan\<close>

text \<open>
  Claim C7: the links that a scan returns are sorted by the start of their span, and links
  with the same start stand in the order of their discovery: the result filtered to one
  start is the list of the links of the first note, then of the second note, and so on,
  filtered to that start, and the links of one note are found from left to right (their
  starts increase strictly).
\<close>

theorem links_sorted_stable:
  "detectPotentialLinks this content = Some (Inr links) \<Longrightarrow>
   sorted (map linkStart links) \<and>
   (\<exists>perNote.
      list_all2 (\<lambda>n ls. noteLinks n content = Some (Inr ls)) (noteTitlesCache this) perNote \<and>
      (\<forall>ls \<in> set perNote. sorted_wrt (<) (map linkStart ls)) \<and>
      (\<forall>k. filter (\<lambda>l. linkStart l = k) links =
           filter (\<lambda>l. linkStart l = k) (concat perNote)))"
proof -
  assume run: "detectPotentialLinks this content = Some (Inr links)"
  from detect_sound[OF run] obtain perNote where
    pn: "list_all2 (\<lambda>n ls. noteLinks n content = Some (Inr ls)) (noteTitlesCache this) perNote"
        "links = sort_key linkStart (concat perNote)"
    by blast
  have "\<forall>ls \<in> set perNote. sorted_wrt (<) (map linkStart ls)"
  proof
    fix ls
    assume "ls \<in> set perNote"
    then obtain i where "i < length perNote" "perNote ! i = ls"
      by (auto simp: in_set_conv_nth)
    with pn(1) have "noteLinks (noteTitlesCache this ! i) content = Some (Inr ls)"
      by (auto simp: list_all2_conv_all_nth)
    from noteLinks_sound[OF this] show "sorted_wrt (<) (map linkStart ls)"
      by simp
  qed
  moreover have "sorted (map linkStart links)"
    unfolding pn(2) by (rule sorted_sort_key)
  moreover have "\<forall>k. filter (\<lambda>l. linkStart l = k) links =
           filter (\<lambda>l. linkStart l = k) (concat perNote)"
    unfolding pn(2) by (simp add: sort_key_stable)
  ultimately show ?thesis using pn(1) by blast
qed

theorem links_sorted_stable_witness:
  "detectPotentialLinks (indexOf [''Alpha'', ''Project Alpha'', ''Project'']) ''Project Alpha'' =
     Some (Inr [alphaLink ''Project Alpha'' ''Project Alpha'' (0, 13),
                alphaLink ''Project'' ''Project'' (0, 7),
                alphaLink ''Alpha'' ''Alpha'' (8, 13)]) \<and>
   sorted (map linkStart
     [alphaLink ''Project Alpha'' ''Project Alpha'' (0, 13),
      alphaLink ''Project'' ''Project'' (0, 7),
      alphaLink ''Alpha'' ''Alpha'' (8, 13)])"
proof -
  have run: "detectPotentialLinks (indexOf [''Alpha'', ''Project Alpha'', ''Project''])
      ''Project Alpha'' =
     Some (Inr [alphaLink ''Project Alpha'' ''Project Alpha'' (0, 13),
                alphaLink ''Project'' ''Project'' (0, 7),
                alphaLink ''Alpha'' ''Alpha'' (8, 13)])"
    by code_simp
  from links_sorted_stable[OF run] run show ?thesis
    by simp
qed

text \<open>
  Claim C10, as stated: a scan ends when no title is empty, and with an empty title in the
  index it does not end. The second half fails: the index holds the title \<^verbatim>\<open>(\<close>
  before the empty title, the pattern of \<^verbatim>\<open>(\<close> does not compile, and the scan ends
  with that syntax error before it reaches the empty title.
\<close>

theorem scan_termination_counterexample:
  "noteEntry.title (noteTitlesCache (indexOf [''('', '''']) ! 1) = [] \<and>
   detectPotentialLinks (indexOf [''('', '''']) ''abc'' = Some (Inl SyntaxError)"
  by code_simp

text \<open>
  Claim C10, amended: when no indexed title is empty, the scan ends for every text (with
  its links, or with the syntax error of a pattern that does not compile). When a title is
  empty and the pattern of every title before it compiles, the scan does not end: the loop
  of an earlier empty title, or else of this one, finds an empty match at a position that
  \<^verbatim>\<open>lastIndex\<close> never leaves.
\<close>

theorem scan_termination:
  "((\<forall>n \<in> set (noteTitlesCache this). noteEntry.title n \<noteq> []) \<longrightarrow>
      (\<exists>r. detectPotentialLinks this content = Some r)) \<and>
   (noteTitlesCache this = pre @ n # post \<and> noteEntry.title n = [] \<and>
    (\<forall>p \<in> set pre. \<exists>re. newRegExp (scanSource (noteEntry.title p)) ''gi'' = Inr re) \<longrightarrow>
      detectPotentialLinks this content = None)"
proof (intro conjI impI)
  assume "\<forall>n \<in> set (noteTitlesCache this). noteEntry.title n \<noteq> []"
  from scanNotes_terminates[OF this, of content "[]"]
  show "\<exists>r. detectPotentialLinks this content = Some r"
    by (auto simp: detectPotentialLinks_def split: sum.splits)
next
  assume "noteTitlesCache this = pre @ n # post \<and> noteEntry.title n = [] \<and>
    (\<forall>p \<in> set pre. \<exists>re. newRegExp (scanSource (noteEntry.title p)) ''gi'' = Inr re)"
  with scanNotes_diverges[of n pre post content "[]"]
  show "detectPotentialLinks this content = None"
    by (simp add: detectPotentialLinks_def)
qed

theorem scan_termination_witness:
  "(\<exists>r. detectPotentialLinks (indexOf [''Project Alpha'', ''('']) ''See project alpha notes'' = Some r) \<and>
   detectPotentialLinks (indexOf [''Project Alpha'', '''', ''(''])  ''See project alpha notes'' = None"
proof -
  have a: "\<forall>n \<in> set (noteTitlesCache (indexOf [''Project Alpha'', ''(''])). noteEntry.title n \<noteq> []"
    by (simp add: indexOf_def)
  let ?pa = "\<lparr>noteEntry.title = ''Project Alpha'', noteEntry.path = ''Project Alpha.md''\<rparr>"
  let ?e = "\<lparr>noteEntry.title = '''', noteEntry.path = ''.md''\<rparr>"
  let ?p = "\<lparr>noteEntry.title = ''('', noteEntry.path = ''(.md''\<rparr>"
  have b: "noteTitlesCache (indexOf [''Project Alpha'', '''', ''('']) = [?pa] @ ?e # [?p]"
    by (simp add: indexOf_def)
  have "\<exists>re. newRegExp (scanSource ''Project Alpha'') ''gi'' = Inr re"
    unfolding newRegExp_def parse_scanSource by simp
  then have c: "\<forall>p \<in> set [?pa]. \<exists>re. newRegExp (scanSource (noteEntry.title p)) ''gi'' = Inr re"
    by simp
  from scan_termination[where this = "indexOf [''Project Alpha'', ''('']" and
        content = "''See project alpha notes''"] a
    scan_termination[where this = "indexOf [''Project Alpha'', '''', ''('']" and pre = "[?pa]" and
        n = ?e and post = "[?p]" and content = "''See project alpha notes''"] b c
  show ?thesis by simp
qed

section \<open>Case and the scan\<close>













section \<open>Frontmatter\<close>











section \<open>Titles with parentheses\<close>

text \<open>
  Claim C1 says that a title with parentheses is found in a text that holds it with the
  parentheses bare or escaped. The code does not do so: for the title
  \<^verbatim>\<open>Budget (2024)\<close> the scan finds nothing in \<^verbatim>\<open>Budget (2024)\<close> and nothing in
  \<^verbatim>\<open>Budget \(2024\)\<close>; what its pattern matches is \<^verbatim>\<open>Budget \?2024\?\<close>, each
  parenthesis turned into a backslash and a question mark.
\<close>

theorem parenthesised_title_missed:
  "detectPotentialLinks (indexOf [''Budget (2024)'']) ''Budget (2024)'' = Some (Inr []) \<and>
   detectPotentialLinks (indexOf [''Budget (2024)''])
     (''Budget '' @ [backslash] @ ''(2024'' @ [backslash] @ '')'') = Some (Inr []) \<and>
   map matchIndex
     (case detectPotentialLinks (indexOf [''Budget (2024)''])
             (''Budget '' @ [backslash] @ ''?2024'' @ [backslash] @ ''?'') of
        Some (Inr links) \<Rightarrow> links) = [(0, 15)]"
proof (intro conjI)
  show "detectPotentialLinks (indexOf [''Budget (2024)'']) ''Budget (2024)'' = Some (Inr [])"
    by code_simp
  show "detectPotentialLinks (indexOf [''Budget (2024)''])
     (''Budget '' @ [backslash] @ ''(2024'' @ [backslash] @ '')'') = Some (Inr [])"
    by code_simp
  show "map matchIndex
     (case detectPotentialLinks (indexOf [''Budget (2024)''])
             (''Budget '' @ [backslash] @ ''?2024'' @ [backslash] @ ''?'') of
        Some (Inr links) \<Rightarrow> links) = [(0, 15)]"
    by code_simp
qed

section \<open>Properties of the rewriter\<close>

text \<open>
  The pattern that the rewriter builds from the original text of a link is always within
  the syntax that \<^verbatim>\<open>parsePattern\<close> reads: building it can only fail with a syntax error,
  which is what unbalanced parentheses in the original text give.
\<close>

lemma newRegExp_word_error:
  "newRegExp (wordSource t) ''gi'' = Inl e \<Longrightarrow> e = SyntaxError"
proof -
  have nq: "take 1 ([backslash] @ ''b'') \<noteq> ''?''"
    by (simp add: backslash_def)
  have "parsePattern (wordSource t) [] [] 1 =
          parsePattern (flexParens (escapeRegExp t) @ ([backslash] @ ''b'')) [] [WordB] 1"
    by (simp add: wordSource_def backslash_def)
  also have "\<dots> = (case titleWalk t ([], [WordB], 1) of
                      None \<Rightarrow> Inl SyntaxError
                    | Some (a, b, d) \<Rightarrow> parsePattern ([backslash] @ ''b'') a b d)"
    by (rule parse_title[OF nq])
  finally have "parsePattern (wordSource t) [] [] 1 =
                  (case titleWalk t ([], [WordB], 1) of
                      None \<Rightarrow> Inl SyntaxError
                    | Some (a, b, d) \<Rightarrow> parsePattern ([backslash] @ ''b'') a b d)" .
  moreover assume "newRegExp (wordSource t) ''gi'' = Inl e"
  ultimately show ?thesis
    by (auto simp: newRegExp_def backslash_def split: option.splits sum.splits if_splits)
qed

text \<open>
  Claim C6: the replacement token of a selected link follows three cases. When
  \<open>enableWikiLinks\<close> is off, it is the title in double brackets. When it is on, the
  original text differs from the title and \<open>respectCase\<close> is set, it is the title, a
  bar and the original text in double brackets. When it is on and the original text is
  the title or \<open>respectCase\<close> is off, it is the title in double brackets.
\<close>

theorem replacement_three_cases:
  "(\<not> enableWikiLinks s \<longrightarrow> replacementOf s l = ''[['' @ link.title l @ '']]'') \<and>
   (enableWikiLinks s \<and> originalMatch l \<noteq> link.title l \<and> respectCase s \<longrightarrow>
      replacementOf s l = ''[['' @ link.title l @ ''|'' @ originalMatch l @ '']]'') \<and>
   (enableWikiLinks s \<and> (originalMatch l = link.title l \<or> \<not> respectCase s) \<longrightarrow>
      replacementOf s l = ''[['' @ link.title l @ '']]'')"
  by (auto simp: replacementOf_def Let_def)

theorem replacement_three_cases_witness:
  "replacementOf defaultSettings lowerCaseLink = ''[[Project Alpha]]'' \<and>
   replacementOf (defaultSettings\<lparr>enableWikiLinks := True, respectCase := True\<rparr>) lowerCaseLink =
     ''[[Project Alpha|project alpha]]'' \<and>
   replacementOf (defaultSettings\<lparr>enableWikiLinks := True\<rparr>) lowerCaseLink =
     ''[[Project Alpha]]'' \<and>
   replacementOf (defaultSettings\<lparr>enableWikiLinks := True, respectCase := True\<rparr>)
     (lowerCaseLink\<lparr>originalMatch := ''Project Alpha''\<rparr>) = ''[[Project Alpha]]''"
  using replacement_three_cases[of defaultSettings lowerCaseLink]
    replacement_three_cases[of "defaultSettings\<lparr>enableWikiLinks := True, respectCase := True\<rparr>"
      lowerCaseLink]
    replacement_three_cases[of "defaultSettings\<lparr>enableWikiLinks := True\<rparr>" lowerCaseLink]
    replacement_three_cases[of "defaultSettings\<lparr>enableWikiLinks := True, respectCase := True\<rparr>"
      "lowerCaseLink\<lparr>originalMatch := ''Project Alpha''\<rparr>"]
  by (simp add: defaultSettings_def lowerCaseLink_def)

text \<open>
  Claim C4, as stated: the rewriter's result depends on the text passed to it, the selected
  links and the configuration only, not on what is stored. The claim fails:
  \<^verbatim>\<open>insertLinks\<close> takes no text, it reads the active file from the vault. With the same
  plugin, editor and links, two vaults that store different contents for the file give
  different results.
\<close>

theorem rewrite_rereads_counterexample:
  "storedAfter ''n.md''
     (insertLinks (indexOf [''Project Alpha'']) alphaVaultA ''n.md'' alphaEditor [lowerCaseLink]) =
     Inr (Some ''See [[Project Alpha]] notes'') \<and>
   storedAfter ''n.md''
     (insertLinks (indexOf [''Project Alpha'']) alphaVaultB ''n.md'' alphaEditor [lowerCaseLink]) =
     Inr (Some ''Now [[Project Alpha]] is stored'')"
proof (intro conjI)
  show "storedAfter ''n.md''
     (insertLinks (indexOf [''Project Alpha'']) alphaVaultA ''n.md'' alphaEditor [lowerCaseLink]) =
     Inr (Some ''See [[Project Alpha]] notes'')"
    by code_simp
  show "storedAfter ''n.md''
     (insertLinks (indexOf [''Project Alpha'']) alphaVaultB ''n.md'' alphaEditor [lowerCaseLink]) =
     Inr (Some ''Now [[Project Alpha]] is stored'')"
    by code_simp
qed

text \<open>
  Claim C4, amended: the content that \<^verbatim>\<open>insertLinks\<close> stores for the active file depends
  only on the settings, the content stored for that file and the selected links: two runs
  that agree on these three store the same content, whatever their editors, caches and
  other files are. A run that succeeds has read the stored content, rewritten it link by
  link, and stored the result for the active file alone.
\<close>

theorem rewrite_reads_storage:
  "(settings this = settings this' \<and> v activeFile = v' activeFile \<longrightarrow>
      storedAfter activeFile (insertLinks this v activeFile ed linksToInsert) =
      storedAfter activeFile (insertLinks this' v' activeFile ed' linksToInsert)) \<and>
   (insertLinks this v activeFile ed linksToInsert = Inr w \<longrightarrow>
      (\<exists>content content'.
         v activeFile = Some content \<and>
         insertAll (settings this) content linksToInsert = Inr content' \<and>
         w = v(activeFile \<mapsto> content')))"
  by (auto simp: insertLinks_def storedAfter_def split: option.splits sum.splits)

theorem rewrite_reads_storage_witness:
  "storedAfter ''n.md''
     (insertLinks (indexOf [''Project Alpha'']) alphaVaultA ''n.md'' alphaEditor [lowerCaseLink]) =
   storedAfter ''n.md''
     (insertLinks ((indexOf [''Project Alpha''])\<lparr>cacheUpToDate := False\<rparr>)
        (alphaVaultA(''other.md'' \<mapsto> ''x'')) ''n.md'' \<lparr>selection = ''unrelated''\<rparr> [lowerCaseLink])"
proof -
  have same: "settings (indexOf [''Project Alpha'']) =
              settings ((indexOf [''Project Alpha''])\<lparr>cacheUpToDate := False\<rparr>) \<and>
              alphaVaultA ''n.md'' = (alphaVaultA(''other.md'' \<mapsto> ''x'')) ''n.md''"
    by simp
  from rewrite_reads_storage[where this = "indexOf [''Project Alpha'']" and
      this' = "(indexOf [''Project Alpha''])\<lparr>cacheUpToDate := False\<rparr>" and
      v = alphaVaultA and v' = "alphaVaultA(''other.md'' \<mapsto> ''x'')" and
      activeFile = "''n.md''" and ed = alphaEditor and ed' = "\<lparr>selection = ''unrelated''\<rparr>" and
      linksToInsert = "[lowerCaseLink]"]
  have "settings (indexOf [''Project Alpha'']) =
              settings ((indexOf [''Project Alpha''])\<lparr>cacheUpToDate := False\<rparr>) \<and>
              alphaVaultA ''n.md'' = (alphaVaultA(''other.md'' \<mapsto> ''x'')) ''n.md'' \<longrightarrow>
        storedAfter ''n.md''
     (insertLinks (indexOf [''Project Alpha'']) alphaVaultA ''n.md'' alphaEditor [lowerCaseLink]) =
   storedAfter ''n.md''
     (insertLinks ((indexOf [''Project Alpha''])\<lparr>cacheUpToDate := False\<rparr>)
        (alphaVaultA(''other.md'' \<mapsto> ''x'')) ''n.md'' \<lparr>selection = ''unrelated''\<rparr> [lowerCaseLink])"
    by (rule conjunct1)
  from this same show ?thesis by (rule mp)
qed

section \<open>Scanning a rewritten text\<close>

lemma getSubstitution_plain:
  "CHR ''$'' \<notin> set replacement \<Longrightarrow>
   getSubstitution matched str position k m replacement = replacement"
  by (induction replacement) auto

lemma startsWith_iff: "startsWith x w = (\<exists>r. x = w @ r)"
proof
  assume "startsWith x w"
  then have "x = w @ drop (length w) x"
    by (metis append_take_drop_id startsWith_def)
  then show "\<exists>r. x = w @ r" ..
next
  assume "\<exists>r. x = w @ r"
  then show "startsWith x w" by (auto simp: startsWith_def)
qed

lemma token_offsets:
  assumes "CHR ''$'' \<notin> set replacement"
  shows "\<forall>off \<in> set (tokenOffsets s replacement ms next).
           startsWith (drop off (spliceMatches re s replacement ms next)) replacement"
proof (induction ms arbitrary: "next")
  case Nil
  then show ?case by simp
next
  case (Cons m ms)
  show ?case
  proof (cases "next \<le> index m")
    case False
    with Cons show ?thesis by simp
  next
    case True
    let ?a = "slice s next (index m)"
    let ?rest = "spliceMatches re s replacement ms (endIndex m)"
    from True have out: "spliceMatches re s replacement (m # ms) next = ?a @ replacement @ ?rest"
      by (simp add: getSubstitution_plain[OF assms])
    from True have offs: "tokenOffsets s replacement (m # ms) next =
        length ?a # map (\<lambda>off. length ?a + length replacement + off)
                      (tokenOffsets s replacement ms (endIndex m))"
      by simp
    show ?thesis
      unfolding out offs
    proof (rule ballI)
      fix off
      assume "off \<in> set (length ?a # map (\<lambda>off. length ?a + length replacement + off)
                      (tokenOffsets s replacement ms (endIndex m)))"
      then consider "off = length ?a"
        | off' where "off' \<in> set (tokenOffsets s replacement ms (endIndex m))"
            "off = length ?a + length replacement + off'"
        by auto
      then show "startsWith (drop off (?a @ replacement @ ?rest)) replacement"
      proof cases
        case 1
        then show ?thesis by (simp add: startsWith_iff)
      next
        case 2
        with Cons[of "endIndex m"] show ?thesis by simp
      qed
    qed
  qed
qed

lemma bracketed_token_protected:
  assumes tok: "startsWith (drop off out) (''[['' @ t @ '']]'')"
    and run: "detectPotentialLinks this out = Some (Inr links)" and k: "k \<in> set links"
  shows "linkStart k \<noteq> off + 2 \<and> linkEnd k \<noteq> off + 2 + length t"
proof -
  from tok obtain r where r: "drop off out = ''[['' @ t @ '']]'' @ r"
    by (auto simp: startsWith_iff)
  then have "startsWith (drop (off + 2 - 2) out) ''[[''"
    by (simp add: startsWith_iff)
  then have pre: "precededByOpen out (off + 2)"
    unfolding precededByOpen_def by simp
  have "drop (off + 2 + length t) out = drop (2 + length t) (drop off out)"
    by (simp add: add.commute add.left_commute)
  also have "\<dots> = '']]'' @ r"
    unfolding r by simp
  finally have post: "followedByClose out (off + 2 + length t)"
    by (simp add: followedByClose_def startsWith_iff)
  from detect_good[OF run k] obtain n where "goodLink (noteEntry.title n) n out k"
    by blast
  then have "\<not> precededByOpen out (linkStart k)" "\<not> followedByClose out (linkEnd k)"
    by (auto simp: goodLink_def occursAt_def)
  with pre post show ?thesis by auto
qed

lemma insertAll_append:
  "insertAll s content (ls @ [l]) =
     (case insertAll s content ls of Inl e \<Rightarrow> Inl e | Inr mid \<Rightarrow> insertLink s mid l)"
  by (induction ls arbitrary: content) (auto split: sum.splits)

text \<open>
  Claim C8, as stated: after a rewrite with the canonical reference, a scan of the result
  finds nothing at the spans that were replaced. The claim fails in two ways. The
  replacement looks for the original text as a whole word, the scan does not: the title
  \<^verbatim>\<open>art\<close> is found in \<^verbatim>\<open>party\<close>, the rewrite of that link leaves the text as it
  is, and the scan finds the same link again. And the scan tests only the two ends of a
  match: after \<^verbatim>\<open>Project Alpha\<close> has become \<^verbatim>\<open>[[Project Alpha]]\<close>, the title
  \<^verbatim>\<open>ject\<close> is still found inside the reference.
\<close>

theorem rescan_counterexample:
  "detectPotentialLinks (indexOf [''art'']) ''party'' = Some (Inr [artLink]) \<and>
   insertAll defaultSettings ''party'' [artLink] = Inr ''party'' \<and>
   detectPotentialLinks (indexOf [''Project Alpha'', ''ject'']) ''Project Alpha'' =
     Some (Inr [alphaLink ''Project Alpha'' ''Project Alpha'' (0, 13),
                alphaLink ''ject'' ''ject'' (3, 7)]) \<and>
   insertAll defaultSettings ''Project Alpha''
     [alphaLink ''Project Alpha'' ''Project Alpha'' (0, 13)] = Inr ''[[Project Alpha]]'' \<and>
   detectPotentialLinks (indexOf [''Project Alpha'', ''ject'']) ''[[Project Alpha]]'' =
     Some (Inr [\<lparr>link.title = ''ject'', surroundingText = ''[[Project Alpha]]'',
                 originalMatch = ''ject'', notePath = ''ject.md'', matchIndex = (5, 9)\<rparr>])"
proof (intro conjI)
  show "detectPotentialLinks (indexOf [''art'']) ''party'' = Some (Inr [artLink])"
    by code_simp
  show "insertAll defaultSettings ''party'' [artLink] = Inr ''party''"
    by code_simp
  show "detectPotentialLinks (indexOf [''Project Alpha'', ''ject'']) ''Project Alpha'' =
     Some (Inr [alphaLink ''Project Alpha'' ''Project Alpha'' (0, 13),
                alphaLink ''ject'' ''ject'' (3, 7)])"
    by code_simp
  show "insertAll defaultSettings ''Project Alpha''
     [alphaLink ''Project Alpha'' ''Project Alpha'' (0, 13)] = Inr ''[[Project Alpha]]''"
    by code_simp
  show "detectPotentialLinks (indexOf [''Project Alpha'', ''ject'']) ''[[Project Alpha]]'' =
     Some (Inr [\<lparr>link.title = ''ject'', surroundingText = ''[[Project Alpha]]'',
                 originalMatch = ''ject'', notePath = ''ject.md'', matchIndex = (5, 9)\<rparr>])"
    by code_simp
qed

text \<open>
  Claim C8, amended: let the link processed last have a title without a dollar sign and the
  canonical reference as its replacement. Then the rewrite writes that reference,
  \<^verbatim>\<open>[[title]]\<close>, at every whole-word match of the link's original text (the offsets
  \<open>tokenOffsets\<close> of the result), and a scan of the result, with any titles, returns no link
  that starts right after the opening brackets of such a reference or ends right before
  its closing brackets: the title inside the reference is not found again.
\<close>

theorem inserted_reference_not_rescanned:
  "insertAll s content (ls @ [l]) = Inr out \<and>
   replacementOf s l = ''[['' @ link.title l @ '']]'' \<and> CHR ''$'' \<notin> set (link.title l) \<longrightarrow>
   (\<exists>mid re.
      insertAll s content ls = Inr mid \<and>
      newRegExp (wordSource (originalMatch l)) ''gi'' = Inr re \<and>
      out = stringReplace re mid (''[['' @ link.title l @ '']]'') \<and>
      (\<forall>off \<in> set (tokenOffsets mid (''[['' @ link.title l @ '']]'') (collectMatches re mid 0) 0).
         startsWith (drop off out) (''[['' @ link.title l @ '']]'') \<and>
         (\<forall>this links.
            detectPotentialLinks this out = Some (Inr links) \<longrightarrow>
            (\<forall>k \<in> set links.
               linkStart k \<noteq> off + 2 \<and> linkEnd k \<noteq> off + 2 + length (link.title l)))))"
proof
  let ?r = "''[['' @ link.title l @ '']]''"
  assume a: "insertAll s content (ls @ [l]) = Inr out \<and> replacementOf s l = ?r \<and>
             CHR ''$'' \<notin> set (link.title l)"
  then obtain mid re where
    mid: "insertAll s content ls = Inr mid" and
    re: "newRegExp (wordSource (originalMatch l)) ''gi'' = Inr re" and
    out: "out = stringReplace re mid ?r"
    by (auto simp: insertAll_append insertLink_def split: sum.splits)
  from re have "global re"
    by (auto simp: newRegExp_def split: sum.splits)
  with out have out': "out = spliceMatches re mid ?r (collectMatches re mid 0) 0"
    by (simp add: stringReplace_def)
  from a have "CHR ''$'' \<notin> set ?r" by simp
  from token_offsets[OF this, of mid "collectMatches re mid 0" 0 re]
  have tok: "\<forall>off \<in> set (tokenOffsets mid ?r (collectMatches re mid 0) 0).
               startsWith (drop off out) ?r"
    unfolding out' .
  have "\<forall>off \<in> set (tokenOffsets mid ?r (collectMatches re mid 0) 0).
         startsWith (drop off out) ?r \<and>
         (\<forall>this links.
            detectPotentialLinks this out = Some (Inr links) \<longrightarrow>
            (\<forall>k \<in> set links.
               linkStart k \<noteq> off + 2 \<and> linkEnd k \<noteq> off + 2 + length (link.title l)))"
    using tok bracketed_token_protected by blast
  with mid re out show "\<exists>mid re.
      insertAll s content ls = Inr mid \<and>
      newRegExp (wordSource (originalMatch l)) ''gi'' = Inr re \<and>
      out = stringReplace re mid ?r \<and>
      (\<forall>off \<in> set (tokenOffsets mid ?r (collectMatches re mid 0) 0).
         startsWith (drop off out) ?r \<and>
         (\<forall>this links.
            detectPotentialLinks this out = Some (Inr links) \<longrightarrow>
            (\<forall>k \<in> set links.
               linkStart k \<noteq> off + 2 \<and> linkEnd k \<noteq> off + 2 + length (link.title l))))"
    by blast
qed

theorem inserted_reference_not_rescanned_witness:
  "insertAll defaultSettings alphaText ([] @ [lowerCaseLink]) = Inr alphaLinked \<and>
   newRegExp (wordSource (originalMatch lowerCaseLink)) ''gi'' = Inr alphaWordRegex \<and>
   tokenOffsets alphaText ''[[Project Alpha]]'' (collectMatches alphaWordRegex alphaText 0) 0 =
     [4, 29] \<and>
   startsWith (drop 4 alphaLinked) ''[[Project Alpha]]'' \<and>
   startsWith (drop 29 alphaLinked) ''[[Project Alpha]]'' \<and>
   detectPotentialLinks (indexOf [''Project Alpha'', ''Alpha'']) alphaLinked = Some (Inr [])"
proof -
  let ?r = "''[[Project Alpha]]''"
  have run: "insertAll defaultSettings alphaText ([] @ [lowerCaseLink]) = Inr alphaLinked"
    by code_simp
  have canon: "replacementOf defaultSettings lowerCaseLink =
                 ''[['' @ link.title lowerCaseLink @ '']]''"
    by (simp add: replacementOf_def defaultSettings_def)
  have nodollar: "CHR ''$'' \<notin> set (link.title lowerCaseLink)"
    by (simp add: lowerCaseLink_def)
  have comp: "newRegExp (wordSource (originalMatch lowerCaseLink)) ''gi'' = Inr alphaWordRegex"
    by code_simp
  have offs: "tokenOffsets alphaText ?r (collectMatches alphaWordRegex alphaText 0) 0 = [4, 29]"
    by code_simp
  have rescan: "detectPotentialLinks (indexOf [''Project Alpha'', ''Alpha'']) alphaLinked =
                  Some (Inr [])"
    by code_simp
  from inserted_reference_not_rescanned[where s = defaultSettings and content = alphaText and
      ls = "[]" and l = lowerCaseLink and out = alphaLinked] run canon nodollar
  obtain mid re where
    f: "insertAll defaultSettings alphaText [] = Inr mid"
       "newRegExp (wordSource (originalMatch lowerCaseLink)) ''gi'' = Inr re"
       "\<forall>off \<in> set (tokenOffsets mid (''[['' @ link.title lowerCaseLink @ '']]'')
                        (collectMatches re mid 0) 0).
          startsWith (drop off alphaLinked) (''[['' @ link.title lowerCaseLink @ '']]'')"
    by blast
  from f(1) have mid: "mid = alphaText" by simp
  from f(2) comp have re: "re = alphaWordRegex" by simp
  have tok: "''[['' @ link.title lowerCaseLink @ '']]'' = ?r"
    by (simp add: lowerCaseLink_def)
  from f(3) have "\<forall>off \<in> set [4, 29]. startsWith (drop off alphaLinked) ?r"
    unfolding mid re tok offs .
  then have "startsWith (drop 4 alphaLinked) ?r \<and> startsWith (drop 29 alphaLinked) ?r"
    by simp
  with run comp offs rescan show ?thesis
    by (intro conjI) simp_all
qed

end
